theory Spec2Isabelle
  imports Main "HOL-Library.Word" "HOL-Library.Sublist"
begin

unbundle bit_operations_syntax

section \<open>Values shared by the sessions\<close>

text \<open>
  A byte of an audio buffer is an 8-bit word. An exception of the Python program is a
  value of \<open>exn\<close>; \<open>IOFailure\<close> stands for whatever an awaited external call (a socket
  operation, a registered callback) raises.
\<close>

type_synonym byte = "8 word"

datatype exn = JSONDecodeError | TypeError | AttributeError | KeyError | ValueError
  | BinasciiError | AudioopError | RuntimeError | IOFailure

text \<open>
  What \<open>json.loads\<close> returns. \<open>JNull\<close> is Python's \<open>None\<close>, \<open>JObj\<close> holds the items of a
  dict and is read with \<open>map_of\<close>. The program inspects a number only for its truth value,
  so a number is an \<open>int\<close>: a float behaves as a zero or a non-zero integer does.
\<close>

datatype json = JNull | JBool bool | JNum int | JStr string | JArr "json list"
  | JObj "(string \<times> json) list"

text \<open>
  A text message taken from a socket is represented by what \<open>json.loads\<close> makes of it:
  \<open>Some\<close> value, or \<open>None\<close> when the text is not JSON and \<open>json.loads\<close> raises.
\<close>

type_synonym message = "json option"

subsection \<open>The Python operations the handlers apply to JSON values\<close>

fun py_truthy :: "json \<Rightarrow> bool" where
  "py_truthy JNull = False"
| "py_truthy (JBool b) = b"
| "py_truthy (JNum n) = (n \<noteq> 0)"
| "py_truthy (JStr s) = (s \<noteq> [])"
| "py_truthy (JArr xs) = (xs \<noteq> [])"
| "py_truthy (JObj kv) = (kv \<noteq> [])"

fun is_substring :: "string \<Rightarrow> string \<Rightarrow> bool" where
  "is_substring xs [] = (xs = [])"
| "is_substring xs (y # ys) = (prefix xs (y # ys) \<or> is_substring xs ys)"

text \<open>\<open>k in v\<close> for a string \<open>k\<close>: key of a dict, element of a list, substring of a string.\<close>

fun py_contains :: "string \<Rightarrow> json \<Rightarrow> exn + bool" where
  "py_contains k (JObj kv) = Inr (map_of kv k \<noteq> None)"
| "py_contains k (JArr xs) = Inr (JStr k \<in> set xs)"
| "py_contains k (JStr s) = Inr (is_substring k s)"
| "py_contains k JNull = Inl TypeError"
| "py_contains k (JBool b) = Inl TypeError"
| "py_contains k (JNum n) = Inl TypeError"

text \<open>\<open>v[k]\<close> for a string \<open>k\<close>.\<close>

fun py_getitem :: "json \<Rightarrow> string \<Rightarrow> exn + json" where
  "py_getitem (JObj kv) k = (case map_of kv k of Some v \<Rightarrow> Inr v | None \<Rightarrow> Inl KeyError)"
| "py_getitem JNull k = Inl TypeError"
| "py_getitem (JBool b) k = Inl TypeError"
| "py_getitem (JNum n) k = Inl TypeError"
| "py_getitem (JStr s) k = Inl TypeError"
| "py_getitem (JArr xs) k = Inl TypeError"

text \<open>\<open>v.get(k, d)\<close>: only a dict has the method.\<close>

fun py_get :: "json \<Rightarrow> string \<Rightarrow> json \<Rightarrow> exn + json" where
  "py_get (JObj kv) k d = Inr (case map_of kv k of Some v \<Rightarrow> v | None \<Rightarrow> d)"
| "py_get JNull k d = Inl AttributeError"
| "py_get (JBool b) k d = Inl AttributeError"
| "py_get (JNum n) k d = Inl AttributeError"
| "py_get (JStr s) k d = Inl AttributeError"
| "py_get (JArr xs) k d = Inl AttributeError"

text \<open>The values a \<open>for\<close> loop over \<open>v\<close> visits.\<close>

fun py_iter :: "json \<Rightarrow> exn + json list" where
  "py_iter (JArr xs) = Inr xs"
| "py_iter (JStr s) = Inr (map (\<lambda>c. JStr [c]) s)"
| "py_iter (JObj kv) = Inr (map (\<lambda>p. JStr (fst p)) kv)"
| "py_iter JNull = Inl TypeError"
| "py_iter (JBool b) = Inl TypeError"
| "py_iter (JNum n) = Inl TypeError"

text \<open>\<open>v.startswith(p)\<close>.\<close>

fun py_startswith :: "json \<Rightarrow> string \<Rightarrow> exn + bool" where
  "py_startswith (JStr s) p = Inr (prefix p s)"
| "py_startswith JNull p = Inl AttributeError"
| "py_startswith (JBool b) p = Inl AttributeError"
| "py_startswith (JNum n) p = Inl AttributeError"
| "py_startswith (JArr xs) p = Inl AttributeError"
| "py_startswith (JObj kv) p = Inl AttributeError"

section \<open>audio/converter.py: base64 framing\<close>

text \<open>
  \<open>to_base64\<close> and \<open>from_base64\<close> call \<open>base64.b64encode\<close> and \<open>base64.b64decode\<close> of the
  Python standard library. The encoder is the one of RFC 4648. The decoder is the
  library's non-validating one: it rejects a string with a non-ASCII character, skips
  every character outside the alphabet, stops at the padding that completes a quad, and
  fails when the data characters do not fill their last quad.
\<close>

definition table_b2a_base64 :: string where
  "table_b2a_base64 = ''ABCDEFGHIJKLMNOPQRSTUVWXYZabcdefghijklmnopqrstuvwxyz0123456789+/''"

definition b2a :: "byte \<Rightarrow> char" where
  "b2a w = table_b2a_base64 ! unat w"

definition table_a2b_base64 :: "char \<Rightarrow> byte" where
  "table_a2b_base64 c =
     (let n = (of_char c :: nat) in
      if 65 \<le> n \<and> n \<le> 90 then of_nat (n - 65)
      else if 97 \<le> n \<and> n \<le> 122 then of_nat (n - 71)
      else if 48 \<le> n \<and> n \<le> 57 then of_nat (n + 4)
      else if n = 43 then 62
      else if n = 47 then 63
      else 255)"

fun b2a_base64 :: "byte list \<Rightarrow> string" where
  "b2a_base64 (a # b # c # rest) =
     b2a (drop_bit 2 a) # b2a (push_bit 4 (a AND 3) OR drop_bit 4 b)
       # b2a (push_bit 2 (b AND 15) OR drop_bit 6 c) # b2a (c AND 63) # b2a_base64 rest"
| "b2a_base64 [a, b] =
     [b2a (drop_bit 2 a), b2a (push_bit 4 (a AND 3) OR drop_bit 4 b),
      b2a (push_bit 2 (b AND 15)), CHR ''='']"
| "b2a_base64 [a] = [b2a (drop_bit 2 a), b2a (push_bit 4 (a AND 3)), CHR ''='', CHR ''='']"
| "b2a_base64 [] = []"

text \<open>
  The decoder's loop: \<open>quad_pos\<close> counts the data characters of the current quad,
  \<open>leftchar\<close> holds the bits not yet written, \<open>pads\<close> counts the padding seen since the
  last data character.
\<close>

fun a2b_base64 :: "nat \<Rightarrow> byte \<Rightarrow> nat \<Rightarrow> byte list \<Rightarrow> string \<Rightarrow> exn + byte list" where
  "a2b_base64 quad_pos leftchar pads out [] =
     (if quad_pos \<noteq> 0 then Inl BinasciiError else Inr out)"
| "a2b_base64 quad_pos leftchar pads out (c # cs) =
     (if c = CHR ''='' then
        (if 2 \<le> quad_pos \<and> 4 \<le> quad_pos + (pads + 1) then Inr out
         else a2b_base64 quad_pos leftchar (if 2 \<le> quad_pos then pads + 1 else pads) out cs)
      else
        (let this_ch = table_a2b_base64 c in
         if 64 \<le> this_ch then a2b_base64 quad_pos leftchar pads out cs
         else if quad_pos = 0 then a2b_base64 1 this_ch 0 out cs
         else if quad_pos = 1 then
           a2b_base64 2 (this_ch AND 15) 0 (out @ [push_bit 2 leftchar OR drop_bit 4 this_ch]) cs
         else if quad_pos = 2 then
           a2b_base64 3 (this_ch AND 3) 0 (out @ [push_bit 4 leftchar OR drop_bit 2 this_ch]) cs
         else a2b_base64 0 0 0 (out @ [push_bit 6 leftchar OR this_ch]) cs))"

definition b64encode :: "byte list \<Rightarrow> string" where
  "b64encode s = b2a_base64 s"

definition b64decode :: "string \<Rightarrow> exn + byte list" where
  "b64decode s =
     (if list_ex (\<lambda>c. (128::nat) \<le> of_char c) s then Inl ValueError
      else a2b_base64 0 0 0 [] s)"

text \<open>\<open>base64.b64decode\<close> applied to a value read from JSON: only a string is accepted.\<close>

fun b64decode_json :: "json \<Rightarrow> exn + byte list" where
  "b64decode_json (JStr s) = b64decode s"
| "b64decode_json JNull = Inl TypeError"
| "b64decode_json (JBool b) = Inl TypeError"
| "b64decode_json (JNum n) = Inl TypeError"
| "b64decode_json (JArr xs) = Inl TypeError"
| "b64decode_json (JObj kv) = Inl TypeError"

definition to_base64 :: "byte list \<Rightarrow> string" where
  "to_base64 audio_data = b64encode audio_data"

definition from_base64 :: "string \<Rightarrow> exn + byte list" where
  "from_base64 b64_string = b64decode b64_string"

section \<open>audio/converter.py: the companding codec\<close>

text \<open>
  \<open>pcm16_to_ulaw\<close> and \<open>ulaw_to_pcm16\<close> call \<open>audioop.lin2ulaw\<close> and \<open>audioop.ulaw2lin\<close>
  with a sample width of 2. The library implements G.711: a 16-bit sample is read in the
  host's byte order (little-endian here), shifted down to 14 bits and encoded by
  \<open>st_14linear2ulaw\<close>; decoding looks the byte up in a table of 256 values, which
  \<open>st_ulaw2linear16\<close> computes by the formula that generates the table.
\<close>

definition BIAS :: int where
  "BIAS = 0x84"

definition CLIP :: int where
  "CLIP = 32635"

definition seg_uend :: "int list" where
  "seg_uend = [0x3F, 0x7F, 0xFF, 0x1FF, 0x3FF, 0x7FF, 0xFFF, 0x1FFF]"

fun search :: "int \<Rightarrow> int list \<Rightarrow> nat" where
  "search val [] = 0"
| "search val (t # table) = (if val \<le> t then 0 else Suc (search val table))"

definition st_14linear2ulaw :: "int \<Rightarrow> byte" where
  "st_14linear2ulaw pcm_val =
     (let mask = (if pcm_val < 0 then 0x7F else 0xFF :: byte);
          mag = (if pcm_val < 0 then - pcm_val else pcm_val);
          clipped = (if CLIP < mag then CLIP else mag);
          biased = clipped + drop_bit 2 BIAS;
          seg = search biased seg_uend
      in if 8 \<le> seg then 0x7F XOR mask
         else (push_bit 4 (of_nat seg) OR (of_int (drop_bit (seg + 1) biased) AND 0xF)) XOR mask)"

definition st_ulaw2linear16 :: "byte \<Rightarrow> int" where
  "st_ulaw2linear16 u_val =
     (let u = NOT u_val;
          t = push_bit (unat (drop_bit 4 (u AND 0x70))) (push_bit 3 (uint (u AND 0xF)) + BIAS)
      in if u AND 0x80 \<noteq> 0 then BIAS - t else t - BIAS)"

text \<open>A signed 16-bit sample from its two bytes, and back.\<close>

definition getsample :: "byte \<Rightarrow> byte \<Rightarrow> int" where
  "getsample lo hi =
     (let v = uint lo + 256 * uint hi in if 32768 \<le> v then v - 65536 else v)"

definition putsample :: "int \<Rightarrow> byte list" where
  "putsample val = [of_int val, of_int (val div 256)]"

fun samples :: "byte list \<Rightarrow> int list" where
  "samples (lo # hi # rest) = getsample lo hi # samples rest"
| "samples [b] = []"
| "samples [] = []"

definition lin2ulaw :: "byte list \<Rightarrow> exn + byte list" where
  "lin2ulaw fragment =
     (if length fragment mod 2 \<noteq> 0 then Inl AudioopError
      else Inr (map (\<lambda>val. st_14linear2ulaw (drop_bit 2 val)) (samples fragment)))"

definition ulaw2lin :: "byte list \<Rightarrow> byte list" where
  "ulaw2lin fragment = concat (map (\<lambda>u. putsample (st_ulaw2linear16 u)) fragment)"

definition ulaw_to_pcm16 :: "byte list \<Rightarrow> nat \<Rightarrow> byte list" where
  "ulaw_to_pcm16 ulaw_data sample_rate = ulaw2lin ulaw_data"

definition pcm16_to_ulaw :: "byte list \<Rightarrow> exn + byte list" where
  "pcm16_to_ulaw pcm_data = lin2ulaw pcm_data"

text \<open>
  The quantization step of the segment a code byte lies in, on the 16-bit scale: 8 in
  the lowest segment, doubling with each segment up to 1024.
\<close>

definition ulaw_step :: "byte \<Rightarrow> int" where
  "ulaw_step u = 2 ^ (unat (drop_bit 4 (NOT u AND 0x70)) + 3)"

section \<open>Effects and outcomes\<close>

text \<open>
  Everything a session does to the outside world is an effect: a call of a registered
  callback or of a socket operation. An outcome is the state a method leaves, the
  effects it performed in order, and the exception that escaped from it, if any.
  The environment is a predicate on effects, \<open>ok e\<close> telling that the awaited call
  \<open>e\<close> returns rather than raises. A registered callback is modelled by the fact that it
  is registered; it does not write to the fields of the session that calls it (those
  the orchestrator registers write to the orchestrator and to the other session).
  Log lines are left out, except the debug line of \<open>send_audio_chunk\<close>, which is all
  that method does on a rising edge besides setting its flag.
\<close>

datatype effect =
    WsAccept
  | WsSendText json
  | WsClose
  | StartCallback
  | StopCallback
  | AudioCallback "byte list"
  | TranscriptCallback json
  | VadCallback string
  | WsConnect
  | WsSendSetup
  | WsSend json
  | LogDebug string


type_synonym 's outcome = "'s \<times> effect list \<times> exn option"

definition await :: "(effect \<Rightarrow> bool) \<Rightarrow> effect \<Rightarrow> 's \<Rightarrow> 's outcome" where
  "await ok e s = (s, [e], if ok e then None else Some IOFailure)"

text \<open>Statements in sequence: the second runs only if the first raised nothing.\<close>

definition then_do :: "'s outcome \<Rightarrow> ('s \<Rightarrow> 's outcome) \<Rightarrow> 's outcome" where
  "then_do r f =
     (case r of
        (s, tr, Some e) \<Rightarrow> (s, tr, Some e)
      | (s, tr, None) \<Rightarrow> (case f s of (s', tr', r') \<Rightarrow> (s', tr @ tr', r')))"

definition always_ok :: "effect \<Rightarrow> bool" where
  "always_ok e = True"

definition never_ok :: "effect \<Rightarrow> bool" where
  "never_ok e = False"

section \<open>smartflo/session.py: SmartfloAudioSession\<close>

text \<open>
  The fields of the class, without the socket handle, the converter and \<open>start_time\<close>
  (a wall-clock reading that only a log line uses). A callback field holds whether a
  callback is registered; \<open>stream_sid\<close> and \<open>call_sid\<close> hold JSON values, \<open>JNull\<close> for
  Python's \<open>None\<close>.
\<close>

record smartflo_session =
  connected :: bool
  stream_sid :: json
  call_sid :: json
  on_audio_callback :: bool
  on_start_callback :: bool
  on_stop_callback :: bool
  audio_chunks_received :: nat
  audio_chunks_sent :: nat

definition smartflo_init :: smartflo_session where
  "smartflo_init = \<lparr>connected = False, stream_sid = JNull, call_sid = JNull,
     on_audio_callback = False, on_start_callback = False, on_stop_callback = False,
     audio_chunks_received = 0, audio_chunks_sent = 0\<rparr>"

definition accept :: "(effect \<Rightarrow> bool) \<Rightarrow> smartflo_session \<Rightarrow> smartflo_session outcome" where
  "accept ok s =
     (if ok WsAccept then (s\<lparr>connected := True\<rparr>, [WsAccept], None)
      else (s, [WsAccept], Some IOFailure))"

definition handle_connected :: "json \<Rightarrow> smartflo_session \<Rightarrow> smartflo_session outcome" where
  "handle_connected message s = (s, [], None)"

text \<open>
  \<open>_handle_start\<close>. \<open>a or b\<close> evaluates \<open>b\<close> only when \<open>a\<close> is falsy. The two further
  \<open>.get\<close> calls on \<open>start_data\<close> feed a log line and cannot raise once the one for
  \<open>callSid\<close> has returned.
\<close>

definition handle_start ::
  "(effect \<Rightarrow> bool) \<Rightarrow> json \<Rightarrow> smartflo_session \<Rightarrow> smartflo_session outcome" where
  "handle_start ok message s =
     (case py_get message ''start'' (JObj []) of
        Inl e \<Rightarrow> (s, [], Some e)
      | Inr start_data \<Rightarrow>
          (case (case py_get message ''streamSid'' JNull of
                   Inl e \<Rightarrow> Inl e
                 | Inr a \<Rightarrow> if py_truthy a then Inr a else py_get start_data ''streamSid'' JNull) of
             Inl e \<Rightarrow> (s, [], Some e)
           | Inr sid \<Rightarrow>
               (case py_get start_data ''callSid'' JNull of
                  Inl e \<Rightarrow> (s\<lparr>stream_sid := sid\<rparr>, [], Some e)
                | Inr cid \<Rightarrow>
                    (if on_start_callback s
                     then await ok StartCallback (s\<lparr>stream_sid := sid, call_sid := cid\<rparr>)
                     else (s\<lparr>stream_sid := sid, call_sid := cid\<rparr>, [], None)))))"

text \<open>
  \<open>_handle_media\<close>. The two \<open>.get\<close> calls stand before the \<open>try\<close>; what the decoder or
  the callback raises inside it is caught and logged there.
\<close>

definition handle_media :: "json \<Rightarrow> smartflo_session \<Rightarrow> smartflo_session outcome" where
  "handle_media message s =
     (case py_get message ''media'' (JObj []) of
        Inl e \<Rightarrow> (s, [], Some e)
      | Inr media \<Rightarrow>
          (case py_get media ''payload'' JNull of
             Inl e \<Rightarrow> (s, [], Some e)
           | Inr payload_b64 \<Rightarrow>
               (if \<not> py_truthy payload_b64 then (s, [], None)
                else (case b64decode_json payload_b64 of
                        Inl e \<Rightarrow> (s, [], None)
                      | Inr ulaw_data \<Rightarrow>
                          (s\<lparr>audio_chunks_received := audio_chunks_received s + 1\<rparr>,
                           if on_audio_callback s then [AudioCallback ulaw_data] else [],
                           None)))))"

definition handle_stop ::
  "(effect \<Rightarrow> bool) \<Rightarrow> json \<Rightarrow> smartflo_session \<Rightarrow> smartflo_session outcome" where
  "handle_stop ok message s =
     (case py_get message ''stop'' (JObj []) of
        Inl e \<Rightarrow> (s, [], Some e)
      | Inr stop_data \<Rightarrow>
          (case py_get stop_data ''reason'' (JStr ''Unknown'') of
             Inl e \<Rightarrow> (s, [], Some e)
           | Inr reason \<Rightarrow>
               (if on_stop_callback s then await ok StopCallback s else (s, [], None))))"

text \<open>
  The value \<open>_handle_media\<close> finds under \<open>media.payload\<close>, \<open>JNull\<close> when there is no such
  field (or when \<open>media\<close> is not a dict).
\<close>

definition media_payload :: "json \<Rightarrow> json" where
  "media_payload message =
     (case py_get message ''media'' (JObj []) of
        Inl e \<Rightarrow> JNull
      | Inr media \<Rightarrow> (case py_get media ''payload'' JNull of Inl e \<Rightarrow> JNull | Inr p \<Rightarrow> p))"

text \<open>
  One pass through the body of the loop of \<open>handle_events\<close>: the state, the effects and
  whether the loop is left (the \<open>break\<close> after \<open>_handle_stop\<close>, reached only if that
  raised nothing). Both \<open>except\<close> clauses log and go on.
\<close>

definition handle_event ::
  "(effect \<Rightarrow> bool) \<Rightarrow> message \<Rightarrow> smartflo_session \<Rightarrow> smartflo_session \<times> effect list \<times> bool"
  where
  "handle_event ok msg s =
     (case msg of
        None \<Rightarrow> (s, [], False)
      | Some data \<Rightarrow>
          (case py_get data ''event'' JNull of
             Inl e \<Rightarrow> (s, [], False)
           | Inr event_type \<Rightarrow>
               if event_type = JStr ''connected'' then
                 (case handle_connected data s of (s', tr, r) \<Rightarrow> (s', tr, False))
               else if event_type = JStr ''start'' then
                 (case handle_start ok data s of (s', tr, r) \<Rightarrow> (s', tr, False))
               else if event_type = JStr ''media'' then
                 (case handle_media data s of (s', tr, r) \<Rightarrow> (s', tr, False))
               else if event_type = JStr ''stop'' then
                 (case handle_stop ok data s of (s', tr, r) \<Rightarrow> (s', tr, r = None))
               else (s, [], False)))"

text \<open>
  \<open>handle_events\<close> over the messages the socket delivers before it closes. However the
  loop ends, the \<open>finally\<close> clause clears \<open>connected\<close>.
\<close>

fun handle_events ::
  "(effect \<Rightarrow> bool) \<Rightarrow> message list \<Rightarrow> smartflo_session \<Rightarrow> smartflo_session \<times> effect list"
  where
  "handle_events ok [] s = (s\<lparr>connected := False\<rparr>, [])"
| "handle_events ok (m # ms) s =
     (case handle_event ok m s of
        (s', tr, True) \<Rightarrow> (s'\<lparr>connected := False\<rparr>, tr)
      | (s', tr, False) \<Rightarrow> (case handle_events ok ms s' of (s'', tr') \<Rightarrow> (s'', tr @ tr')))"

definition media_message :: "json \<Rightarrow> string \<Rightarrow> json" where
  "media_message sid payload_b64 =
     JObj [(''event'', JStr ''media''), (''streamSid'', sid),
           (''media'', JObj [(''payload'', JStr payload_b64)])]"

definition pad160 :: "byte list \<Rightarrow> byte list" where
  "pad160 ulaw_data =
     (if length ulaw_data mod 160 \<noteq> 0
      then ulaw_data @ replicate (160 - length ulaw_data mod 160) 0xff
      else ulaw_data)"

text \<open>\<open>send_audio\<close>: the \<open>except\<close> clause catches what the socket raises, so nothing escapes.\<close>

definition send_audio ::
  "(effect \<Rightarrow> bool) \<Rightarrow> byte list \<Rightarrow> smartflo_session \<Rightarrow> smartflo_session \<times> effect list" where
  "send_audio ok ulaw_data s =
     (if \<not> connected s \<or> \<not> py_truthy (stream_sid s) then (s, [])
      else
        (let message = media_message (stream_sid s) (b64encode (pad160 ulaw_data)) in
         if ok (WsSendText message)
         then (s\<lparr>audio_chunks_sent := audio_chunks_sent s + 1\<rparr>, [WsSendText message])
         else (s, [WsSendText message])))"

section \<open>gemini_live/client.py: GeminiLiveClient\<close>

text \<open>
  The fields of the class: \<open>ws\<close> tells whether a socket object is held, \<open>gconnected\<close> is
  the field \<open>connected\<close> (renamed, the telephony session has one too), a callback field
  tells whether a callback is registered.
\<close>

record gemini_client =
  ws :: bool
  gconnected :: bool
  audio_callback :: bool
  transcript_callback :: bool
  vad_callback :: bool
  user_speaking :: bool
  bot_speaking :: bool

definition gemini_init :: gemini_client where
  "gemini_init = \<lparr>ws = False, gconnected = False, audio_callback = False,
     transcript_callback = False, vad_callback = False,
     user_speaking = False, bot_speaking = False\<rparr>"

definition connect :: "(effect \<Rightarrow> bool) \<Rightarrow> gemini_client \<Rightarrow> gemini_client outcome" where
  "connect ok s =
     (if \<not> ok WsConnect then (s\<lparr>gconnected := False\<rparr>, [WsConnect], Some IOFailure)
      else if \<not> ok WsSendSetup
      then (s\<lparr>ws := True, gconnected := False\<rparr>, [WsConnect, WsSendSetup], Some IOFailure)
      else (s\<lparr>ws := True, gconnected := True\<rparr>, [WsConnect, WsSendSetup], None))"

definition realtime_input :: "byte list \<Rightarrow> json" where
  "realtime_input pcm_data =
     JObj [(''realtime_input'', JObj [(''media_chunks'',
       JArr [JObj [(''mime_type'', JStr ''audio/pcm''), (''data'', JStr (to_base64 pcm_data))]])])]"

text \<open>\<open>send_audio_chunk\<close>: what the socket raises is caught and logged.\<close>

definition send_audio_chunk ::
  "(effect \<Rightarrow> bool) \<Rightarrow> byte list \<Rightarrow> gemini_client \<Rightarrow> gemini_client \<times> effect list" where
  "send_audio_chunk ok pcm_data s =
     (if \<not> gconnected s \<or> \<not> ws s then (s, [])
      else if \<not> user_speaking s
      then (s\<lparr>user_speaking := True\<rparr>,
            [LogDebug ''User started speaking'', WsSend (realtime_input pcm_data)])
      else (s, [WsSend (realtime_input pcm_data)]))"

subsection \<open>The body of the loop of \<open>receive_events\<close>\<close>

definition vad :: "(effect \<Rightarrow> bool) \<Rightarrow> string \<Rightarrow> gemini_client \<Rightarrow> gemini_client outcome" where
  "vad ok name s = (if vad_callback s then await ok (VadCallback name) s else (s, [], None))"

text \<open>The two tests of \<open>bot_speaking\<close> that open the handling of a model turn.\<close>

definition bot_started :: "(effect \<Rightarrow> bool) \<Rightarrow> gemini_client \<Rightarrow> gemini_client outcome" where
  "bot_started ok s =
     (if \<not> bot_speaking s
      then vad ok ''user_stopped'' (s\<lparr>bot_speaking := True, user_speaking := False\<rparr>)
      else (s, [], None))"

definition bot_started_again :: "gemini_client \<Rightarrow> gemini_client outcome" where
  "bot_started_again s =
     (if \<not> bot_speaking s then (s\<lparr>bot_speaking := True\<rparr>, [], None) else (s, [], None))"

text \<open>A part with \<open>inlineData\<close>: the audio output.\<close>

definition inline_part ::
  "(effect \<Rightarrow> bool) \<Rightarrow> json \<Rightarrow> gemini_client \<Rightarrow> gemini_client outcome" where
  "inline_part ok part s =
     (case py_contains ''inlineData'' part of
        Inl e \<Rightarrow> (s, [], Some e)
      | Inr False \<Rightarrow> (s, [], None)
      | Inr True \<Rightarrow>
          (case py_getitem part ''inlineData'' of
             Inl e \<Rightarrow> (s, [], Some e)
           | Inr inline_data \<Rightarrow>
               (case py_get inline_data ''mimeType'' (JStr []) of
                  Inl e \<Rightarrow> (s, [], Some e)
                | Inr mime_type \<Rightarrow>
                    (case py_startswith mime_type ''audio/'' of
                       Inl e \<Rightarrow> (s, [], Some e)
                     | Inr is_audio \<Rightarrow>
                         if is_audio \<and> audio_callback s then
                           (case py_get inline_data ''data'' (JStr []) of
                              Inl e \<Rightarrow> (s, [], Some e)
                            | Inr audio_b64 \<Rightarrow>
                                if py_truthy audio_b64 then
                                  (case b64decode_json audio_b64 of
                                     Inl e \<Rightarrow> (s, [], Some e)
                                   | Inr audio_data \<Rightarrow> await ok (AudioCallback audio_data) s)
                                else (s, [], None))
                         else (s, [], None)))))"

text \<open>A part with \<open>text\<close>: the transcript.\<close>

definition text_part ::
  "(effect \<Rightarrow> bool) \<Rightarrow> json \<Rightarrow> gemini_client \<Rightarrow> gemini_client outcome" where
  "text_part ok part s =
     (case py_contains ''text'' part of
        Inl e \<Rightarrow> (s, [], Some e)
      | Inr has_text \<Rightarrow>
          if has_text \<and> transcript_callback s then
            (case py_getitem part ''text'' of
               Inl e \<Rightarrow> (s, [], Some e)
             | Inr text \<Rightarrow>
                 if py_truthy text then await ok (TranscriptCallback text) s else (s, [], None))
          else (s, [], None))"

fun handle_parts ::
  "(effect \<Rightarrow> bool) \<Rightarrow> json list \<Rightarrow> gemini_client \<Rightarrow> gemini_client outcome" where
  "handle_parts ok [] s = (s, [], None)"
| "handle_parts ok (part # parts) s =
     then_do (then_do (inline_part ok part s) (text_part ok part)) (handle_parts ok parts)"

definition model_turn_parts ::
  "(effect \<Rightarrow> bool) \<Rightarrow> json \<Rightarrow> gemini_client \<Rightarrow> gemini_client outcome" where
  "model_turn_parts ok model_turn s =
     (case py_get model_turn ''parts'' (JArr []) of
        Inl e \<Rightarrow> (s, [], Some e)
      | Inr parts \<Rightarrow>
          (case py_iter parts of
             Inl e \<Rightarrow> (s, [], Some e)
           | Inr ps \<Rightarrow> handle_parts ok ps s))"

definition on_model_turn ::
  "(effect \<Rightarrow> bool) \<Rightarrow> json \<Rightarrow> gemini_client \<Rightarrow> gemini_client outcome" where
  "on_model_turn ok server_content s =
     (case py_contains ''modelTurn'' server_content of
        Inl e \<Rightarrow> (s, [], Some e)
      | Inr False \<Rightarrow> (s, [], None)
      | Inr True \<Rightarrow>
          (case py_getitem server_content ''modelTurn'' of
             Inl e \<Rightarrow> (s, [], Some e)
           | Inr model_turn \<Rightarrow>
               then_do (then_do (bot_started ok s) bot_started_again)
                 (model_turn_parts ok model_turn)))"

text \<open>\<open>k in server_content and server_content[k]\<close>.\<close>

definition flag_set :: "string \<Rightarrow> json \<Rightarrow> exn + bool" where
  "flag_set k server_content =
     (case py_contains k server_content of
        Inl e \<Rightarrow> Inl e
      | Inr False \<Rightarrow> Inr False
      | Inr True \<Rightarrow>
          (case py_getitem server_content k of
             Inl e \<Rightarrow> Inl e
           | Inr v \<Rightarrow> Inr (py_truthy v)))"

definition on_turn_complete ::
  "(effect \<Rightarrow> bool) \<Rightarrow> json \<Rightarrow> gemini_client \<Rightarrow> gemini_client outcome" where
  "on_turn_complete ok server_content s =
     (case flag_set ''turnComplete'' server_content of
        Inl e \<Rightarrow> (s, [], Some e)
      | Inr False \<Rightarrow> (s, [], None)
      | Inr True \<Rightarrow> vad ok ''turn_complete'' (s\<lparr>bot_speaking := False\<rparr>))"

text \<open>The first of the two blocks that test \<open>interrupted\<close>.\<close>

definition on_interrupted ::
  "(effect \<Rightarrow> bool) \<Rightarrow> json \<Rightarrow> gemini_client \<Rightarrow> gemini_client outcome" where
  "on_interrupted ok server_content s =
     (case flag_set ''interrupted'' server_content of
        Inl e \<Rightarrow> (s, [], Some e)
      | Inr False \<Rightarrow> (s, [], None)
      | Inr True \<Rightarrow>
          then_do (vad ok ''interrupted'' (s\<lparr>bot_speaking := False, user_speaking := True\<rparr>))
            (vad ok ''turn_complete''))"

text \<open>The second one.\<close>

definition on_interrupted_again ::
  "(effect \<Rightarrow> bool) \<Rightarrow> json \<Rightarrow> gemini_client \<Rightarrow> gemini_client outcome" where
  "on_interrupted_again ok server_content s =
     (case flag_set ''interrupted'' server_content of
        Inl e \<Rightarrow> (s, [], Some e)
      | Inr False \<Rightarrow> (s, [], None)
      | Inr True \<Rightarrow> vad ok ''interrupted'' (s\<lparr>bot_speaking := False\<rparr>))"

definition on_server_content ::
  "(effect \<Rightarrow> bool) \<Rightarrow> json \<Rightarrow> gemini_client \<Rightarrow> gemini_client outcome" where
  "on_server_content ok server_content s =
     then_do (then_do (then_do (on_model_turn ok server_content s)
       (on_turn_complete ok server_content))
       (on_interrupted ok server_content))
       (on_interrupted_again ok server_content)"

text \<open>
  The handling of a parsed message. The tests for \<open>setupComplete\<close> and
  \<open>toolCallCancellation\<close> that follow only log, and cannot raise once the test for
  \<open>serverContent\<close> has not.
\<close>

definition dispatch ::
  "(effect \<Rightarrow> bool) \<Rightarrow> json \<Rightarrow> gemini_client \<Rightarrow> gemini_client outcome" where
  "dispatch ok data s =
     (case py_contains ''serverContent'' data of
        Inl e \<Rightarrow> (s, [], Some e)
      | Inr False \<Rightarrow> (s, [], None)
      | Inr True \<Rightarrow>
          (case py_getitem data ''serverContent'' of
             Inl e \<Rightarrow> (s, [], Some e)
           | Inr server_content \<Rightarrow> on_server_content ok server_content s))"

text \<open>One pass through the body of the loop: both \<open>except\<close> clauses log and go on.\<close>

definition receive_event ::
  "(effect \<Rightarrow> bool) \<Rightarrow> message \<Rightarrow> gemini_client \<Rightarrow> gemini_client \<times> effect list" where
  "receive_event ok msg s =
     (case msg of
        None \<Rightarrow> (s, [])
      | Some data \<Rightarrow> (case dispatch ok data s of (s', tr, r) \<Rightarrow> (s', tr)))"

fun receive_loop ::
  "(effect \<Rightarrow> bool) \<Rightarrow> message list \<Rightarrow> gemini_client \<Rightarrow> gemini_client \<times> effect list" where
  "receive_loop ok [] s = (s, [])"
| "receive_loop ok (m # ms) s =
     (case receive_event ok m s of
        (s', tr) \<Rightarrow> (case receive_loop ok ms s' of (s'', tr') \<Rightarrow> (s'', tr @ tr')))"

text \<open>
  How the stream of messages ends: the socket closes normally and the iteration stops,
  or it raises \<open>ConnectionClosed\<close>, or it raises something else.
\<close>

datatype stream_end = EndOfStream | ConnectionClosed | StreamError

definition receive_events ::
  "(effect \<Rightarrow> bool) \<Rightarrow> message list \<Rightarrow> stream_end \<Rightarrow> gemini_client \<Rightarrow> gemini_client outcome"
  where
  "receive_events ok msgs ending s =
     (if \<not> gconnected s \<or> \<not> ws s then (s, [], Some RuntimeError)
      else
        (case receive_loop ok msgs s of
           (s', tr) \<Rightarrow>
             (case ending of
                EndOfStream \<Rightarrow> (s', tr, None)
              | ConnectionClosed \<Rightarrow> (s'\<lparr>gconnected := False\<rparr>, tr, None)
              | StreamError \<Rightarrow> (s'\<lparr>gconnected := False\<rparr>, tr, Some IOFailure))))"

definition close :: "(effect \<Rightarrow> bool) \<Rightarrow> gemini_client \<Rightarrow> gemini_client outcome" where
  "close ok s =
     (if ws s then
        (if ok WsClose then (s\<lparr>gconnected := False\<rparr>, [WsClose], None)
         else (s, [WsClose], Some IOFailure))
      else (s, [], None))"

subsection \<open>Runs of the client\<close>

text \<open>
  A run is a sequence of steps on one client, each with the environment it meets:
  the registration of callbacks, \<open>connect\<close>, \<open>send_audio_chunk\<close>, the handling of one
  received message, \<open>close\<close>. A step is taken as a whole: the tasks of the program
  share one event loop, and a call of \<open>send_audio_chunk\<close> that the loop schedules while
  the handling of a message waits for a callback is not part of a run.
\<close>

datatype action =
    Register bool bool bool
  | Connect
  | SendAudioChunk "byte list"
  | Receive message
  | Close

fun step :: "(effect \<Rightarrow> bool) \<Rightarrow> action \<Rightarrow> gemini_client \<Rightarrow> gemini_client" where
  "step ok (Register a t v) s =
     s\<lparr>audio_callback := a, transcript_callback := t, vad_callback := v\<rparr>"
| "step ok Connect s = fst (connect ok s)"
| "step ok (SendAudioChunk pcm_data) s = fst (send_audio_chunk ok pcm_data s)"
| "step ok (Receive msg) s = fst (receive_event ok msg s)"
| "step ok Close s = fst (close ok s)"

fun run :: "((effect \<Rightarrow> bool) \<times> action) list \<Rightarrow> gemini_client \<Rightarrow> gemini_client" where
  "run [] s = s"
| "run ((ok, a) # steps) s = run steps (step ok a s)"

text \<open>At most one of the two turn flags is set.\<close>

definition exclusive :: "gemini_client \<Rightarrow> bool" where
  "exclusive s = (\<not> (user_speaking s \<and> bot_speaking s))"

text \<open>A run in which no audio chunk is sent while \<open>bot_speaking\<close> is set.\<close>

fun quiet_while_bot :: "((effect \<Rightarrow> bool) \<times> action) list \<Rightarrow> gemini_client \<Rightarrow> bool" where
  "quiet_while_bot [] s = True"
| "quiet_while_bot ((ok, SendAudioChunk pcm_data) # steps) s =
     (\<not> bot_speaking s \<and> quiet_while_bot steps (step ok (SendAudioChunk pcm_data) s))"
| "quiet_while_bot ((ok, a) # steps) s = quiet_while_bot steps (step ok a s)"

section \<open>The base64 round trip\<close>

lemma bit_index_cases: "i < 8 \<Longrightarrow> i \<in> {0, 1, 2, 3, 4, 5, 6, 7 :: nat}"
  by auto

lemma b2a_tab:
  "\<forall>n \<in> set [0..<64]. table_a2b_base64 (b2a (of_nat n)) = of_nat n
      \<and> b2a (of_nat n) \<noteq> CHR ''='' \<and> (of_char (b2a (of_nat n)) :: nat) < 128"
  by (simp add: upt_rec b2a_def table_b2a_base64_def table_a2b_base64_def)

lemma sextet_b2a:
  fixes w :: byte
  assumes "w < 64"
  shows "table_a2b_base64 (b2a w) = w" and "b2a w \<noteq> CHR ''=''"
    and "(of_char (b2a w) :: nat) < 128"
proof -
  from assms have "unat w \<in> set [0..<64]"
    by (simp add: word_less_nat_alt)
  with b2a_tab have "table_a2b_base64 (b2a (of_nat (unat w))) = of_nat (unat w)
      \<and> b2a (of_nat (unat w)) \<noteq> CHR ''='' \<and> (of_char (b2a (of_nat (unat w))) :: nat) < 128"
    by blast
  then show "table_a2b_base64 (b2a w) = w" and "b2a w \<noteq> CHR ''=''"
    and "(of_char (b2a w) :: nat) < 128"
    by simp_all
qed

lemma and63_less: "(w :: byte) AND 63 < 64"
  using and_mask_less' [of 6 w] by (simp add: mask_eq_exp_minus_1)

lemma byte_eqI:
  fixes v w :: byte
  assumes "bit v 0 = bit w 0" "bit v 1 = bit w 1" "bit v 2 = bit w 2" "bit v 3 = bit w 3"
    "bit v 4 = bit w 4" "bit v 5 = bit w 5" "bit v 6 = bit w 6" "bit v 7 = bit w 7"
  shows "v = w"
proof (rule bit_word_eqI)
  fix i assume "i < LENGTH(8)"
  then have "i \<in> {0, 1, 2, 3, 4, 5, 6, 7}"
    using bit_index_cases [of i] by simp
  with assms show "bit v i = bit w i"
    by (elim insertE emptyE) simp_all
qed

lemma byte_bit_ge8: "8 \<le> n \<Longrightarrow> \<not> bit (a :: byte) n"
  using bit_imp_le_length [of a n] by auto

lemma sextet1: "drop_bit 2 (a :: byte) < 64"
proof -
  have "drop_bit 2 a AND 63 = drop_bit 2 a"
    by (rule byte_eqI) (simp_all add: bit_simps byte_bit_ge8)
  then show ?thesis using and63_less [of "drop_bit 2 a"] by simp
qed

lemma sextet2: "push_bit 4 ((a :: byte) AND 3) OR drop_bit 4 (b :: byte) < 64"
proof -
  have "(push_bit 4 (a AND 3) OR drop_bit 4 b) AND 63 = push_bit 4 (a AND 3) OR drop_bit 4 b"
    by (rule byte_eqI) (simp_all add: bit_simps byte_bit_ge8)
  then show ?thesis using and63_less [of "push_bit 4 (a AND 3) OR drop_bit 4 b"] by simp
qed

lemma sextet3: "push_bit 2 ((b :: byte) AND 15) OR drop_bit 6 (c :: byte) < 64"
proof -
  have "(push_bit 2 (b AND 15) OR drop_bit 6 c) AND 63 = push_bit 2 (b AND 15) OR drop_bit 6 c"
    by (rule byte_eqI) (simp_all add: bit_simps byte_bit_ge8)
  then show ?thesis using and63_less [of "push_bit 2 (b AND 15) OR drop_bit 6 c"] by simp
qed

lemma sextet2_last: "push_bit 4 ((a :: byte) AND 3) < 64"
  using sextet2 [of a 0] by simp

lemma sextet3_last: "push_bit 2 ((b :: byte) AND 15) < 64"
  using sextet3 [of b 0] by simp

lemma join1:
  "push_bit 2 (drop_bit 2 a) OR drop_bit 4 (push_bit 4 (a AND 3) OR drop_bit 4 b) = (a :: byte)"
  by (rule byte_eqI) (simp_all add: bit_simps)

lemma join2:
  "push_bit 4 ((push_bit 4 (a AND 3) OR drop_bit 4 b) AND 15)
     OR drop_bit 2 (push_bit 2 (b AND 15) OR drop_bit 6 c) = (b :: byte)"
  by (rule byte_eqI) (simp_all add: bit_simps)

lemma join3:
  "push_bit 6 ((push_bit 2 (b AND 15) OR drop_bit 6 c) AND 3) OR (c AND 63) = (c :: byte)"
  by (rule byte_eqI) (simp_all add: bit_simps)

lemma a2b_step:
  fixes w :: byte
  assumes "w < 64"
  shows "a2b_base64 q l p out (b2a w # cs) =
     (if q = 0 then a2b_base64 1 w 0 out cs
      else if q = 1 then a2b_base64 2 (w AND 15) 0 (out @ [push_bit 2 l OR drop_bit 4 w]) cs
      else if q = 2 then a2b_base64 3 (w AND 3) 0 (out @ [push_bit 4 l OR drop_bit 2 w]) cs
      else a2b_base64 0 0 0 (out @ [push_bit 6 l OR w]) cs)"
  using assms sextet_b2a(1,2) [OF assms] by (simp add: Let_def not_le [symmetric])

lemma a2b_pad:
  "a2b_base64 q l p out (CHR ''='' # cs) =
     (if 2 \<le> q \<and> 4 \<le> q + (p + 1) then Inr out
      else a2b_base64 q l (if 2 \<le> q then p + 1 else p) out cs)"
  by simp

declare a2b_base64.simps(2) [simp del]

lemma a2b_quad:
  fixes w1 w2 w3 w4 :: byte
  assumes "w1 < 64" "w2 < 64" "w3 < 64" "w4 < 64"
  shows "a2b_base64 0 l p out (b2a w1 # b2a w2 # b2a w3 # b2a w4 # cs) =
     a2b_base64 0 0 0 (out @ [push_bit 2 w1 OR drop_bit 4 w2,
        push_bit 4 (w2 AND 15) OR drop_bit 2 w3, push_bit 6 (w3 AND 3) OR w4]) cs"
  using assms by (simp add: a2b_step)

lemma a2b_pad1:
  fixes w1 w2 w3 :: byte
  assumes "w1 < 64" "w2 < 64" "w3 < 64"
  shows "a2b_base64 0 l p out (b2a w1 # b2a w2 # b2a w3 # CHR ''='' # cs) =
     Inr (out @ [push_bit 2 w1 OR drop_bit 4 w2, push_bit 4 (w2 AND 15) OR drop_bit 2 w3])"
  using assms by (simp add: a2b_step a2b_pad)

lemma a2b_pad2:
  fixes w1 w2 :: byte
  assumes "w1 < 64" "w2 < 64"
  shows "a2b_base64 0 l p out (b2a w1 # b2a w2 # CHR ''='' # CHR ''='' # cs) =
     Inr (out @ [push_bit 2 w1 OR drop_bit 4 w2])"
  using assms by (simp add: a2b_step a2b_pad)

lemma join1_last:
  "push_bit 2 (drop_bit 2 a) OR drop_bit 4 (push_bit 4 (a AND 3)) = (a :: byte)"
  by (rule byte_eqI) (simp_all add: bit_simps)

lemma join2_last:
  "push_bit 4 ((push_bit 4 (a AND 3) OR drop_bit 4 b) AND 15)
     OR drop_bit 2 (push_bit 2 (b AND 15)) = (b :: byte)"
  by (rule byte_eqI) (simp_all add: bit_simps)

lemma a2b_b2a_base64: "a2b_base64 0 l p out (b2a_base64 s) = Inr (out @ s)"
proof (induction s arbitrary: l p out rule: b2a_base64.induct)
  case (1 a b c rest)
  have "a2b_base64 0 l p out (b2a_base64 (a # b # c # rest)) =
      a2b_base64 0 0 0 (out @ [a, b, c]) (b2a_base64 rest)"
    by (simp only: b2a_base64.simps a2b_quad [OF sextet1 sextet2 sextet3 and63_less]
        join1 join2 join3)
  then show ?case using "1.IH" [of 0 0 "out @ [a, b, c]"] by simp
next
  case (2 a b)
  show ?case
    by (simp only: b2a_base64.simps a2b_pad1 [OF sextet1 sextet2 sextet3_last]
        join1 join2_last)
next
  case (3 a)
  show ?case
    by (simp only: b2a_base64.simps a2b_pad2 [OF sextet1 sextet2_last] join1_last)
next
  case 4
  show ?case by simp
qed

lemma b2a_base64_ascii: "c \<in> set (b2a_base64 s) \<Longrightarrow> (of_char c :: nat) < 128"
proof (induction s rule: b2a_base64.induct)
  case (1 a b c rest)
  then show ?case
    using sextet_b2a(3) [OF sextet1] sextet_b2a(3) [OF sextet2] sextet_b2a(3) [OF sextet3]
      sextet_b2a(3) [OF and63_less]
    by (auto simp only: b2a_base64.simps set_simps insert_iff)
next
  case (2 a b)
  then show ?case
    using sextet_b2a(3) [OF sextet1] sextet_b2a(3) [OF sextet2] sextet_b2a(3) [OF sextet3_last]
    by (auto simp only: b2a_base64.simps set_simps insert_iff empty_iff) simp_all
next
  case (3 a)
  then show ?case
    using sextet_b2a(3) [OF sextet1] sextet_b2a(3) [OF sextet2_last]
    by (auto simp only: b2a_base64.simps set_simps insert_iff empty_iff) simp_all
next
  case 4
  then show ?case by simp
qed


lemma b64decode_b64encode: "b64decode (b64encode b) = Inr b"
proof -
  have "\<not> list_ex (\<lambda>c. (128::nat) \<le> of_char c) (b2a_base64 b)"
    using b2a_base64_ascii [of _ b] by (auto simp: list_ex_iff not_le)
  then show ?thesis
    using a2b_b2a_base64 [of 0 0 "[]" b] by (simp add: b64decode_def b64encode_def)
qed

text \<open>
  C9: decoding the base64 text of a byte buffer gives the buffer back, for every buffer.
\<close>

theorem from_base64_to_base64: "from_base64 (to_base64 b) = Inr b"
  by (simp add: from_base64_def to_base64_def b64decode_b64encode)

theorem from_base64_to_base64_witness: "from_base64 (to_base64 [72, 105]) = Inr [72, 105]"
  using from_base64_to_base64 [of "[72, 105]"] by simp

section \<open>The telephony session\<close>

lemma pad_mod: "(n + (160 - n mod 160)) mod 160 = (0::nat)"
proof -
  define q r where "q = n div 160" and "r = n mod 160"
  have n: "n = 160 * q + r" and r: "r < 160"
    by (simp_all add: q_def r_def)
  have "n + (160 - r) = 160 * (q + 1)"
    using n r by simp
  then have "(n + (160 - r)) mod 160 = 0"
    by (simp del: mult_Suc_right)
  then show ?thesis by (simp add: r_def)
qed

lemma pad160_eq:
  "\<exists>k<160. pad160 b = b @ replicate k 0xff \<and> length (b @ replicate k 0xff) mod 160 = 0"
proof (cases "length b mod 160 = 0")
  case True
  then have "pad160 b = b @ replicate 0 0xff \<and> length (b @ replicate 0 0xff) mod 160 = 0"
    by (simp add: pad160_def)
  then show ?thesis by (intro exI [of _ 0]) simp
next
  case False
  let ?k = "160 - length b mod 160"
  from False have "?k < 160 \<and> pad160 b = b @ replicate ?k 0xff
      \<and> length (b @ replicate ?k 0xff) mod 160 = 0"
    using pad_mod [of "length b"] by (simp add: pad160_def)
  then show ?thesis by (intro exI [of _ ?k]) simp
qed

text \<open>
  C3 as stated fails: when the write to the socket raises, \<open>send_audio\<close> catches the
  exception and \<open>audio_chunks_sent\<close> stays as it was, on a connected session that holds
  a stream id.
\<close>

theorem send_audio_write_raises:
  "connected (smartflo_init\<lparr>connected := True, stream_sid := JStr ''S1''\<rparr>)
   \<and> py_truthy (stream_sid (smartflo_init\<lparr>connected := True, stream_sid := JStr ''S1''\<rparr>))
   \<and> fst (send_audio never_ok [1]
         (smartflo_init\<lparr>connected := True, stream_sid := JStr ''S1''\<rparr>)) =
       smartflo_init\<lparr>connected := True, stream_sid := JStr ''S1''\<rparr>
   \<and> audio_chunks_sent (fst (send_audio never_ok [1]
         (smartflo_init\<lparr>connected := True, stream_sid := JStr ''S1''\<rparr>))) = 0"
  by (simp add: send_audio_def smartflo_init_def never_ok_def Let_def)

text \<open>
  C3, as amended: while the session is connected and holds a stream id, \<open>send_audio\<close>
  calls the socket's write once, with the message that has the event \<open>media\<close>, the
  stream id and, under \<open>media.payload\<close>, a string that decodes to the input followed by
  fewer than 160 bytes 0xff, a multiple of 160 bytes in all; \<open>audio_chunks_sent\<close> grows
  by one if that write returns and nothing changes if it raises; in any other state
  \<open>send_audio\<close> writes nothing and changes nothing.
\<close>

theorem send_audio_frames:
  "(connected s \<and> py_truthy (stream_sid s) \<longrightarrow>
      (\<exists>payload k. k < 160
         \<and> snd (send_audio ok b s) =
             [WsSendText (JObj [(''event'', JStr ''media''), (''streamSid'', stream_sid s),
                 (''media'', JObj [(''payload'', JStr payload)])])]
         \<and> b64decode payload = Inr (b @ replicate k 0xff)
         \<and> length (b @ replicate k 0xff) mod 160 = 0
         \<and> fst (send_audio ok b s) =
             (if ok (WsSendText (JObj [(''event'', JStr ''media''), (''streamSid'', stream_sid s),
                 (''media'', JObj [(''payload'', JStr payload)])]))
              then s\<lparr>audio_chunks_sent := audio_chunks_sent s + 1\<rparr> else s)))
   \<and> (\<not> (connected s \<and> py_truthy (stream_sid s)) \<longrightarrow> send_audio ok b s = (s, []))"
proof -
  from pad160_eq [of b] obtain k where k: "k < 160" "pad160 b = b @ replicate k 0xff"
      "length (b @ replicate k 0xff) mod 160 = 0"
    by (elim exE conjE)
  have dec: "b64decode (b64encode (pad160 b)) = Inr (b @ replicate k 0xff)"
    using b64decode_b64encode [of "pad160 b"] by (simp only: k(2))
  let ?msg = "JObj [(''event'', JStr ''media''), (''streamSid'', stream_sid s),
      (''media'', JObj [(''payload'', JStr (b64encode (pad160 b)))])]"
  show ?thesis
  proof (intro conjI impI)
    assume "connected s \<and> py_truthy (stream_sid s)"
    then have "snd (send_audio ok b s) = [WsSendText ?msg]
        \<and> fst (send_audio ok b s) =
          (if ok (WsSendText ?msg)
           then s\<lparr>audio_chunks_sent := audio_chunks_sent s + 1\<rparr> else s)"
      by (simp add: send_audio_def media_message_def Let_def)
    with k(1,3) dec show "\<exists>payload k. k < 160
         \<and> snd (send_audio ok b s) =
             [WsSendText (JObj [(''event'', JStr ''media''), (''streamSid'', stream_sid s),
                 (''media'', JObj [(''payload'', JStr payload)])])]
         \<and> b64decode payload = Inr (b @ replicate k 0xff)
         \<and> length (b @ replicate k 0xff) mod 160 = 0
         \<and> fst (send_audio ok b s) =
             (if ok (WsSendText (JObj [(''event'', JStr ''media''), (''streamSid'', stream_sid s),
                 (''media'', JObj [(''payload'', JStr payload)])]))
              then s\<lparr>audio_chunks_sent := audio_chunks_sent s + 1\<rparr> else s)"
      by (intro exI [of _ "b64encode (pad160 b)"] exI [of _ k]) simp
  next
    assume "\<not> (connected s \<and> py_truthy (stream_sid s))"
    then show "send_audio ok b s = (s, [])"
      by (auto simp: send_audio_def)
  qed
qed

theorem send_audio_frames_witness:
  "connected (smartflo_init\<lparr>connected := True, stream_sid := JStr ''S1''\<rparr>)
   \<and> py_truthy (stream_sid (smartflo_init\<lparr>connected := True, stream_sid := JStr ''S1''\<rparr>))
   \<and> (\<exists>payload k. k < 160
         \<and> snd (send_audio always_ok [1]
               (smartflo_init\<lparr>connected := True, stream_sid := JStr ''S1''\<rparr>)) =
             [WsSendText (JObj [(''event'', JStr ''media''), (''streamSid'', JStr ''S1''),
                 (''media'', JObj [(''payload'', JStr payload)])])]
         \<and> b64decode payload = Inr ([1] @ replicate k 0xff)
         \<and> length ([1] @ replicate k 0xff) mod 160 = 0
         \<and> fst (send_audio always_ok [1]
               (smartflo_init\<lparr>connected := True, stream_sid := JStr ''S1''\<rparr>)) =
             smartflo_init\<lparr>connected := True, stream_sid := JStr ''S1'',
               audio_chunks_sent := 1\<rparr>)"
  using send_audio_frames [of "smartflo_init\<lparr>connected := True, stream_sid := JStr ''S1''\<rparr>"
      always_ok "[1]"]
  by (simp add: smartflo_init_def always_ok_def)

text \<open>
  C10: for a media event whose payload is missing or empty the session changes nothing,
  calls nothing and the loop goes on; the loop goes on for every media event, and the
  counter grows (by one) and the audio callback is called only for a payload that is a
  non-empty string and decodes, in which case both happen.
\<close>

theorem media_payload_gate:
  assumes "py_get data ''event'' JNull = Inr (JStr ''media'')"
  shows "(\<not> py_truthy (media_payload data) \<longrightarrow>
        handle_event ok (Some data) s = (s, [], False)
        \<and> handle_events ok (Some data # ms) s = handle_events ok ms s)
    \<and> (\<exists>s' tr. handle_event ok (Some data) s = (s', tr, False)
        \<and> (s' \<noteq> s \<or> tr \<noteq> [] \<longrightarrow>
             (\<exists>p ulaw_data. media_payload data = JStr p \<and> p \<noteq> []
                \<and> b64decode p = Inr ulaw_data
                \<and> s' = s\<lparr>audio_chunks_received := audio_chunks_received s + 1\<rparr>
                \<and> tr = (if on_audio_callback s then [AudioCallback ulaw_data] else []))))
    \<and> (\<forall>p ulaw_data. media_payload data = JStr p \<and> p \<noteq> [] \<and> b64decode p = Inr ulaw_data \<longrightarrow>
          handle_event ok (Some data) s =
            (s\<lparr>audio_chunks_received := audio_chunks_received s + 1\<rparr>,
             if on_audio_callback s then [AudioCallback ulaw_data] else [], False))"
proof -
  have ev: "handle_event ok (Some data) s =
      (case handle_media data s of (s', tr, r) \<Rightarrow> (s', tr, False))"
    using assms by (simp add: handle_event_def)
  have falsy: "handle_media data s = (s, [], None) \<or> (\<exists>e. handle_media data s = (s, [], Some e))"
    if "\<not> py_truthy (media_payload data)"
    using that by (auto simp: handle_media_def media_payload_def split: sum.splits)
  have truthy: "(\<exists>e. handle_media data s = (s, [], e))
      \<or> (\<exists>p ulaw_data. media_payload data = JStr p \<and> p \<noteq> [] \<and> b64decode p = Inr ulaw_data
           \<and> handle_media data s = (s\<lparr>audio_chunks_received := audio_chunks_received s + 1\<rparr>,
                if on_audio_callback s then [AudioCallback ulaw_data] else [], None))"
  proof (cases "media_payload data")
    case (JStr p)
    then show ?thesis
      by (auto simp: handle_media_def media_payload_def split: sum.splits)
  qed (auto simp: handle_media_def media_payload_def split: sum.splits)
  have hit: "handle_media data s = (s\<lparr>audio_chunks_received := audio_chunks_received s + 1\<rparr>,
        if on_audio_callback s then [AudioCallback ulaw_data] else [], None)"
    if "media_payload data = JStr p" "p \<noteq> []" "b64decode p = Inr ulaw_data" for p ulaw_data
    using that by (auto simp: handle_media_def media_payload_def split: sum.splits)
  show ?thesis
  proof (intro conjI impI allI)
    assume f: "\<not> py_truthy (media_payload data)"
    from falsy [OF f] show e1: "handle_event ok (Some data) s = (s, [], False)"
      by (auto simp: ev)
    then show "handle_events ok (Some data # ms) s = handle_events ok ms s"
      by simp
  next
    from truthy show "\<exists>s' tr. handle_event ok (Some data) s = (s', tr, False)
        \<and> (s' \<noteq> s \<or> tr \<noteq> [] \<longrightarrow>
             (\<exists>p ulaw_data. media_payload data = JStr p \<and> p \<noteq> []
                \<and> b64decode p = Inr ulaw_data
                \<and> s' = s\<lparr>audio_chunks_received := audio_chunks_received s + 1\<rparr>
                \<and> tr = (if on_audio_callback s then [AudioCallback ulaw_data] else [])))"
      by (auto simp: ev)
  next
    fix p ulaw_data
    assume "media_payload data = JStr p \<and> p \<noteq> [] \<and> b64decode p = Inr ulaw_data"
    then show "handle_event ok (Some data) s =
            (s\<lparr>audio_chunks_received := audio_chunks_received s + 1\<rparr>,
             if on_audio_callback s then [AudioCallback ulaw_data] else [], False)"
      using hit [of p ulaw_data] by (simp add: ev)
  qed
qed

theorem media_payload_gate_witness:
  "py_get (JObj [(''event'', JStr ''media''), (''media'', JObj [(''payload'', JStr [])])])
       ''event'' JNull = Inr (JStr ''media'')
   \<and> handle_event always_ok
       (Some (JObj [(''event'', JStr ''media''), (''media'', JObj [(''payload'', JStr [])])]))
       smartflo_init = (smartflo_init, [], False)"
  using media_payload_gate
    [of "JObj [(''event'', JStr ''media''), (''media'', JObj [(''payload'', JStr [])])]"
      always_ok smartflo_init "[]"]
  by (simp add: media_payload_def)

text \<open>
  C8: a text that is not JSON changes no state and causes no effect in either session,
  and either loop goes on with the next message.
\<close>

theorem malformed_json_skipped:
  "handle_event ok None s = (s, [], False)
   \<and> handle_events ok (None # ms) s = handle_events ok ms s
   \<and> receive_event ok None g = (g, [])
   \<and> receive_loop ok (None # gms) g = receive_loop ok gms g
   \<and> receive_events ok (None # gms) ending g = receive_events ok gms ending g"
  by (simp add: handle_event_def receive_event_def receive_events_def)

theorem malformed_json_skipped_witness:
  "handle_event always_ok None smartflo_init = (smartflo_init, [], False)
   \<and> receive_event always_ok None gemini_init = (gemini_init, [])"
  using malformed_json_skipped [where ok = always_ok and s = smartflo_init and g = gemini_init]
  by simp

section \<open>The companding codec\<close>

lemma length_samples: "length (samples b) = length b div 2"
  by (induction b rule: samples.induct) simp_all

text \<open>
  C7: \<open>pcm16_to_ulaw\<close> fails on a buffer of odd length, and on a non-empty buffer of
  even length it returns a buffer of half the length.
\<close>

theorem pcm16_to_ulaw_length:
  "(odd (length b) \<longrightarrow> pcm16_to_ulaw b = Inl AudioopError)
   \<and> (even (length b) \<and> 0 < length b \<longrightarrow>
        (\<exists>u. pcm16_to_ulaw b = Inr u \<and> length u = length b div 2))"
  by (auto simp: pcm16_to_ulaw_def lin2ulaw_def length_samples odd_iff_mod_2_eq_one)

theorem pcm16_to_ulaw_length_witness:
  "odd (length [0 :: byte]) \<and> pcm16_to_ulaw [0] = Inl AudioopError
   \<and> even (length [0, 0 :: byte]) \<and> 0 < length [0, 0 :: byte]
   \<and> (\<exists>u. pcm16_to_ulaw [0, 0] = Inr u \<and> length u = length [0, 0 :: byte] div 2)"
  using pcm16_to_ulaw_length [of "[0]"] pcm16_to_ulaw_length [of "[0, 0]"]
  by simp

subsection \<open>The round trip through the codec\<close>

lemma and15_uint: "uint ((w :: byte) AND 0xF) = uint w mod 16"
proof -
  have "w AND 0xF = take_bit 4 w"
    by (simp add: take_bit_eq_mask mask_eq_exp_minus_1)
  then have "uint (w AND 0xF) = take_bit 4 (uint w)"
    by (simp only: unsigned_take_bit_eq)
  then show ?thesis
    by (simp add: take_bit_eq_mod)
qed

lemma of_int_and15_uint: "uint ((of_int x :: byte) AND 0xF) = x mod 16"
proof -
  have "uint (of_int x :: byte) = x mod 256"
    by (simp add: uint_word_of_int)
  then have "uint ((of_int x :: byte) AND 0xF) = (x mod 256) mod 16"
    by (simp add: and15_uint)
  also have "\<dots> = x mod 16"
    by (simp add: mod_mod_cancel)
  finally show ?thesis .
qed

lemma code_fields_pos:
  assumes "k < 8"
  shows "NOT ((push_bit 4 (of_nat k) OR (q AND 0xF)) XOR 0xFF) AND 0xF = (q :: byte) AND 0xF"
    and "drop_bit 4 (NOT ((push_bit 4 (of_nat k) OR (q AND 0xF)) XOR 0xFF) AND 0x70) = (of_nat k :: byte)"
    and "NOT ((push_bit 4 (of_nat k) OR (q AND 0xF)) XOR 0xFF) AND 0x80 = (0 :: byte)"
proof -
  from assms have k: "k \<in> {0, 1, 2, 3, 4, 5, 6, 7}"
    by (rule bit_index_cases)
  from k show "NOT ((push_bit 4 (of_nat k) OR (q AND 0xF)) XOR 0xFF) AND 0xF = q AND 0xF"
    by (elim insertE emptyE; intro byte_eqI) (simp_all add: bit_simps)
  from k show "drop_bit 4 (NOT ((push_bit 4 (of_nat k) OR (q AND 0xF)) XOR 0xFF) AND 0x70) = (of_nat k :: byte)"
    by (elim insertE emptyE; intro byte_eqI) (simp_all add: bit_simps byte_bit_ge8)
  from k show "NOT ((push_bit 4 (of_nat k) OR (q AND 0xF)) XOR 0xFF) AND 0x80 = (0 :: byte)"
    by (elim insertE emptyE; intro byte_eqI) (simp_all add: bit_simps)
qed


lemma code_fields_neg:
  assumes "k < 8"
  shows "NOT ((push_bit 4 (of_nat k) OR (q AND 0xF)) XOR 0x7F) AND 0xF = (q :: byte) AND 0xF"
    and "drop_bit 4 (NOT ((push_bit 4 (of_nat k) OR (q AND 0xF)) XOR 0x7F) AND 0x70) = (of_nat k :: byte)"
    and "NOT ((push_bit 4 (of_nat k) OR (q AND 0xF)) XOR 0x7F) AND 0x80 = (0x80 :: byte)"
proof -
  from assms have k: "k \<in> {0, 1, 2, 3, 4, 5, 6, 7}"
    by (rule bit_index_cases)
  from k show "NOT ((push_bit 4 (of_nat k) OR (q AND 0xF)) XOR 0x7F) AND 0xF = q AND 0xF"
    by (elim insertE emptyE; intro byte_eqI) (simp_all add: bit_simps)
  from k show "drop_bit 4 (NOT ((push_bit 4 (of_nat k) OR (q AND 0xF)) XOR 0x7F) AND 0x70) = (of_nat k :: byte)"
    by (elim insertE emptyE; intro byte_eqI) (simp_all add: bit_simps byte_bit_ge8)
  from k show "NOT ((push_bit 4 (of_nat k) OR (q AND 0xF)) XOR 0x7F) AND 0x80 = (0x80 :: byte)"
    by (elim insertE emptyE; intro byte_eqI) (simp_all add: bit_simps)
qed

lemma unat_seg: "k < 8 \<Longrightarrow> unat (of_nat k :: byte) = k"
  by (simp add: unat_of_nat)

lemma decode_code_pos:
  assumes "k < 8"
  shows "st_ulaw2linear16 ((push_bit 4 (of_nat k) OR (of_int x AND 0xF)) XOR 0xFF) =
      (8 * (x mod 16) + 132) * 2 ^ k - 132"
    and "ulaw_step ((push_bit 4 (of_nat k) OR (of_int x AND 0xF)) XOR 0xFF) = 2 ^ (k + 3)"
proof -
  let ?u = "(push_bit 4 (of_nat k) OR (of_int x AND 0xF)) XOR 0xFF :: byte"
  note f = code_fields_pos [OF assms, of "of_int x"]
  show "st_ulaw2linear16 ?u = (8 * (x mod 16) + 132) * 2 ^ k - 132"
    unfolding st_ulaw2linear16_def Let_def f
    by (simp add: unat_seg [OF assms] of_int_and15_uint BIAS_def push_bit_eq_mult)
  show "ulaw_step ?u = 2 ^ (k + 3)"
    unfolding ulaw_step_def f
    by (simp add: unat_seg [OF assms])
qed

lemma decode_code_neg:
  assumes "k < 8"
  shows "st_ulaw2linear16 ((push_bit 4 (of_nat k) OR (of_int x AND 0xF)) XOR 0x7F) =
      132 - (8 * (x mod 16) + 132) * 2 ^ k"
    and "ulaw_step ((push_bit 4 (of_nat k) OR (of_int x AND 0xF)) XOR 0x7F) = 2 ^ (k + 3)"
proof -
  let ?u = "(push_bit 4 (of_nat k) OR (of_int x AND 0xF)) XOR 0x7F :: byte"
  note f = code_fields_neg [OF assms, of "of_int x"]
  show "st_ulaw2linear16 ?u = 132 - (8 * (x mod 16) + 132) * 2 ^ k"
    unfolding st_ulaw2linear16_def Let_def f
    by (simp add: unat_seg [OF assms] of_int_and15_uint BIAS_def push_bit_eq_mult)
  show "ulaw_step ?u = 2 ^ (k + 3)"
    unfolding ulaw_step_def f
    by (simp add: unat_seg [OF assms])
qed

lemma top_code: "(0x7F :: byte) = push_bit 4 (of_nat 7) OR (of_int 15 AND 0xF)"
  by (rule byte_eqI) (simp_all add: bit_simps)

lemma decode_clip:
  "st_ulaw2linear16 (0x7F XOR 0xFF) = 32124" "ulaw_step (0x7F XOR 0xFF) = 1024"
  "st_ulaw2linear16 (0x7F XOR 0x7F) = - 32124" "ulaw_step (0x7F XOR 0x7F) = 1024"
proof -
  have "st_ulaw2linear16 ((push_bit 4 (of_nat 7) OR (of_int 15 AND 0xF)) XOR 0xFF) =
      (8 * (15 mod 16) + 132) * 2 ^ 7 - 132"
    by (rule decode_code_pos(1)) simp
  then show "st_ulaw2linear16 (0x7F XOR 0xFF) = 32124"
    unfolding top_code [symmetric] by simp
  have "ulaw_step ((push_bit 4 (of_nat 7) OR (of_int 15 AND 0xF)) XOR 0xFF) = 2 ^ (7 + 3)"
    by (rule decode_code_pos(2)) simp
  then show "ulaw_step (0x7F XOR 0xFF) = 1024"
    unfolding top_code [symmetric] by simp
  have "st_ulaw2linear16 ((push_bit 4 (of_nat 7) OR (of_int 15 AND 0xF)) XOR 0x7F) =
      132 - (8 * (15 mod 16) + 132) * 2 ^ 7"
    by (rule decode_code_neg(1)) simp
  then show "st_ulaw2linear16 (0x7F XOR 0x7F) = - 32124"
    unfolding top_code [symmetric] by simp
  have "ulaw_step ((push_bit 4 (of_nat 7) OR (of_int 15 AND 0xF)) XOR 0x7F) = 2 ^ (7 + 3)"
    by (rule decode_code_neg(2)) simp
  then show "ulaw_step (0x7F XOR 0x7F) = 1024"
    unfolding top_code [symmetric] by simp
qed

lemma search_seg_uend:
  "33 \<le> p \<Longrightarrow>
     (if 8191 < p then search p seg_uend = 8
      else search p seg_uend < 8 \<and> 2 ^ (search p seg_uend + 5) \<le> p
        \<and> p < 2 ^ (search p seg_uend + 6))"
  by (simp add: seg_uend_def)


lemma quant_bound:
  fixes p e :: int
  assumes k: "k < 8" and lo: "2 ^ (k + 5) \<le> p" and hi: "p < 2 ^ (k + 6)"
    and e: "- 3 \<le> e" "e \<le> 3"
  shows "\<bar>(8 * ((p div 2 ^ (k + 1)) mod 16) + 132) * 2 ^ k - 4 * p + e\<bar> < 2 ^ (k + 3)"
proof -
  define P :: int where "P = 2 ^ k"
  define d where "d = p div (2 * P)"
  define r where "r = p mod (2 * P)"
  have P: "1 \<le> P" by (simp add: P_def)
  have p: "p = 2 * P * d + r" and r: "0 \<le> r" "r < 2 * P"
    using P by (simp_all add: d_def r_def)
  have lo': "32 * P \<le> p" and hi': "p < 64 * P"
    using lo hi by (simp_all add: P_def power_add)
  have "16 \<le> d"
  proof (rule ccontr)
    assume "\<not> 16 \<le> d"
    then have "d \<le> 15" by simp
    then have "2 * P * d \<le> 2 * P * 15" using P by (intro mult_left_mono) simp_all
    with p r lo' show False by simp
  qed
  moreover have "d < 32"
  proof (rule ccontr)
    assume "\<not> d < 32"
    then have "32 \<le> d" by simp
    then have "2 * P * 32 \<le> 2 * P * d" using P by (intro mult_left_mono) simp_all
    with p r hi' show False by simp
  qed
  ultimately have dm: "d mod 16 = d - 16"
    by presburger
  have "(8 * (d mod 16) + 132) * P - 4 * p + e = 4 * P - 4 * r + e"
    unfolding dm p by (simp add: algebra_simps)
  moreover have "\<bar>4 * P - 4 * r + e\<bar> < 8 * P"
    using r e P by linarith
  ultimately show ?thesis
    by (simp add: P_def d_def power_add)
qed


lemma encode_pos:
  assumes "0 \<le> v" "v \<le> 8191"
  shows "st_14linear2ulaw v =
     (if 8 \<le> search (v + 33) seg_uend then 0x7F XOR 0xFF
      else (push_bit 4 (of_nat (search (v + 33) seg_uend))
         OR (of_int ((v + 33) div 2 ^ (search (v + 33) seg_uend + 1)) AND 0xF)) XOR 0xFF)"
  using assms by (simp add: st_14linear2ulaw_def Let_def CLIP_def BIAS_def drop_bit_eq_div)

lemma encode_neg:
  assumes "v < 0" "- 8192 \<le> v"
  shows "st_14linear2ulaw v =
     (if 8 \<le> search (- v + 33) seg_uend then 0x7F XOR 0x7F
      else (push_bit 4 (of_nat (search (- v + 33) seg_uend))
         OR (of_int ((- v + 33) div 2 ^ (search (- v + 33) seg_uend + 1)) AND 0xF)) XOR 0x7F)"
  using assms by (simp add: st_14linear2ulaw_def Let_def CLIP_def BIAS_def drop_bit_eq_div)

lemma sample_round_trip:
  assumes "- 32768 \<le> s" "s \<le> 32767"
  shows "\<bar>st_ulaw2linear16 (st_14linear2ulaw (drop_bit 2 s)) - s\<bar>
      < ulaw_step (st_14linear2ulaw (drop_bit 2 s))
    \<and> ulaw_step (st_14linear2ulaw (drop_bit 2 s)) \<le> 1024"
proof -
  define v where "v = s div 4"
  define e where "e = s mod 4"
  have s: "s = 4 * v + e" and e: "0 \<le> e" "e \<le> 3"
    by (simp_all add: v_def e_def)
  have v: "- 8192 \<le> v" "v \<le> 8191"
    using assms by (simp_all add: v_def)
  have dv: "drop_bit 2 s = v"
    by (simp add: v_def drop_bit_eq_div)
  have "\<bar>st_ulaw2linear16 (st_14linear2ulaw v) - s\<bar> < ulaw_step (st_14linear2ulaw v)
      \<and> ulaw_step (st_14linear2ulaw v) \<le> 1024"
  proof (cases "v < 0")
    case False
    let ?p = "v + 33"
    let ?k = "search ?p seg_uend"
    from False have v0: "0 \<le> v" by simp
    have enc: "st_14linear2ulaw v =
       (if 8 \<le> ?k then 0x7F XOR 0xFF
        else (push_bit 4 (of_nat ?k) OR (of_int (?p div 2 ^ (?k + 1)) AND 0xF)) XOR 0xFF)"
      by (rule encode_pos [OF v0 v(2)])
    have sg: "if 8191 < ?p then ?k = 8
        else ?k < 8 \<and> 2 ^ (?k + 5) \<le> ?p \<and> ?p < 2 ^ (?k + 6)"
      using v0 by (intro search_seg_uend) simp
    show ?thesis
    proof (cases "8191 < ?p")
      case True
      with sg enc have "st_14linear2ulaw v = 0x7F XOR 0xFF" by simp
      then have "st_ulaw2linear16 (st_14linear2ulaw v) = 32124"
          "ulaw_step (st_14linear2ulaw v) = 1024"
        by (simp_all only: decode_clip)
      with True v s e show ?thesis
        by simp
    next
      case False
      with sg have k: "?k < 8" "2 ^ (?k + 5) \<le> ?p" "?p < 2 ^ (?k + 6)" by simp_all
      with enc have "st_14linear2ulaw v =
          (push_bit 4 (of_nat ?k) OR (of_int (?p div 2 ^ (?k + 1)) AND 0xF)) XOR 0xFF"
        by simp
      then have d: "st_ulaw2linear16 (st_14linear2ulaw v) =
            (8 * ((?p div 2 ^ (?k + 1)) mod 16) + 132) * 2 ^ ?k - 132"
          "ulaw_step (st_14linear2ulaw v) = 2 ^ (?k + 3)"
        by (simp_all only: decode_code_pos [OF k(1)])
      have "\<bar>(8 * ((?p div 2 ^ (?k + 1)) mod 16) + 132) * 2 ^ ?k - 4 * ?p + (- e)\<bar>
          < 2 ^ (?k + 3)"
        using e by (intro quant_bound k) simp_all
      moreover have "(2::int) ^ (?k + 3) \<le> 2 ^ 10"
        using k(1) by (intro power_increasing) simp_all
      ultimately show ?thesis
        unfolding d by (simp add: s)
    qed
  next
    case True
    let ?p = "- v + 33"
    let ?k = "search ?p seg_uend"
    have enc: "st_14linear2ulaw v =
       (if 8 \<le> ?k then 0x7F XOR 0x7F
        else (push_bit 4 (of_nat ?k) OR (of_int (?p div 2 ^ (?k + 1)) AND 0xF)) XOR 0x7F)"
      by (rule encode_neg [OF True v(1)])
    have sg: "if 8191 < ?p then ?k = 8
        else ?k < 8 \<and> 2 ^ (?k + 5) \<le> ?p \<and> ?p < 2 ^ (?k + 6)"
      using True by (intro search_seg_uend) simp
    show ?thesis
    proof (cases "8191 < ?p")
      case True
      with sg enc have "st_14linear2ulaw v = 0x7F XOR 0x7F" by simp
      then have "st_ulaw2linear16 (st_14linear2ulaw v) = - 32124"
          "ulaw_step (st_14linear2ulaw v) = 1024"
        by (simp_all only: decode_clip)
      with True v s e show ?thesis
        by simp
    next
      case False
      with sg have k: "?k < 8" "2 ^ (?k + 5) \<le> ?p" "?p < 2 ^ (?k + 6)" by simp_all
      with enc have "st_14linear2ulaw v =
          (push_bit 4 (of_nat ?k) OR (of_int (?p div 2 ^ (?k + 1)) AND 0xF)) XOR 0x7F"
        by simp
      then have d: "st_ulaw2linear16 (st_14linear2ulaw v) =
            132 - (8 * ((?p div 2 ^ (?k + 1)) mod 16) + 132) * 2 ^ ?k"
          "ulaw_step (st_14linear2ulaw v) = 2 ^ (?k + 3)"
        by (simp_all only: decode_code_neg [OF k(1)])
      have "\<bar>(8 * ((?p div 2 ^ (?k + 1)) mod 16) + 132) * 2 ^ ?k - 4 * ?p + e\<bar>
          < 2 ^ (?k + 3)"
        using e by (intro quant_bound k) simp_all
      moreover have "(2::int) ^ (?k + 3) \<le> 2 ^ 10"
        using k(1) by (intro power_increasing) simp_all
      ultimately show ?thesis
        unfolding d by (simp add: s)
    qed
  qed
  then show ?thesis
    unfolding dv .
qed

lemma getsample_range: "- 32768 \<le> getsample lo hi \<and> getsample lo hi \<le> 32767"
proof -
  define x y where "x = uint lo" and "y = uint hi"
  have xy: "0 \<le> x" "x < 256" "0 \<le> y" "y < 256"
    using uint_lt2p [of lo] uint_lt2p [of hi] by (simp_all add: x_def y_def)
  show ?thesis
    unfolding getsample_def Let_def x_def [symmetric] y_def [symmetric]
    using xy by simp
qed

lemma samples_range: "x \<in> set (samples b) \<Longrightarrow> - 32768 \<le> x \<and> x \<le> 32767"
  by (induction b rule: samples.induct) (auto simp: getsample_range)

lemma getsample_putsample:
  assumes "- 32768 \<le> d" "d \<le> 32767"
  shows "samples (putsample d @ rest) = d # samples rest"
proof -
  define h where "h = d div 256"
  have lo: "uint (of_int d :: byte) = d mod 256"
    and hi: "uint (of_int h :: byte) = h mod 256"
    by (simp_all add: uint_word_of_int)
  have h: "- 128 \<le> h" "h \<le> 127"
    using assms by (simp_all add: h_def)
  have d: "d mod 256 = d - 256 * h"
    by (simp add: h_def minus_mult_div_eq_mod)
  have "getsample (of_int d) (of_int h) = d"
  proof (cases "h < 0")
    case True
    with h have "h mod 256 = h + 256"
      by (simp add: int_mod_neg_eq [where q = "-1"] zmod_minus1 mod_pos_neg_trivial int_mod_pos_eq [where q = "-1"])
    with True assms h show ?thesis
      by (simp add: getsample_def Let_def lo hi d)
  next
    case False
    with h have "h mod 256 = h"
      by simp
    with False assms h show ?thesis
      by (simp add: getsample_def Let_def lo hi d)
  qed
  then show ?thesis
    by (simp add: putsample_def h_def)
qed

lemma seg_field_le: "unat (drop_bit 4 ((w :: byte) AND 0x70)) \<le> 7"
proof -
  have "w AND 0x70 \<le> 0x70"
    by (rule word_and_le1)
  then have "unat (w AND 0x70) \<le> 112"
    by (simp add: word_le_nat_alt)
  then show ?thesis
    by (simp add: drop_bit_eq_div unat_div)
qed

lemma st_ulaw2linear16_range:
  "- 32124 \<le> st_ulaw2linear16 u \<and> st_ulaw2linear16 u \<le> 32124"
proof -
  let ?w = "NOT u"
  define k where "k = unat (drop_bit 4 (?w AND 0x70))"
  define q where "q = uint (?w AND 0xF)"
  have k: "k \<le> 7" by (simp only: k_def seg_field_le)
  have q: "0 \<le> q" "q \<le> 15" by (simp_all add: q_def and15_uint)
  have "(2::int) ^ k \<le> 2 ^ 7"
    using k by (intro power_increasing) simp_all
  then have t1: "(8 * q + 132) * 2 ^ k \<le> 252 * 128"
    using q by (intro mult_mono) simp_all
  have "(1::int) \<le> 2 ^ k" by simp
  then have t0: "132 * 1 \<le> (8 * q + 132) * 2 ^ k"
    using q by (intro mult_mono) simp_all
  have "st_ulaw2linear16 u =
      (if ?w AND 0x80 \<noteq> 0 then 132 - (8 * q + 132) * 2 ^ k else (8 * q + 132) * 2 ^ k - 132)"
    unfolding st_ulaw2linear16_def Let_def k_def [symmetric] q_def [symmetric]
    by (simp add: BIAS_def push_bit_eq_mult)
  with t0 t1 show ?thesis by simp
qed

lemma samples_ulaw2lin: "samples (ulaw2lin u) = map st_ulaw2linear16 u"
proof (induction u)
  case Nil
  show ?case by (simp add: ulaw2lin_def)
next
  case (Cons a u)
  have "samples (putsample (st_ulaw2linear16 a) @ ulaw2lin u) =
      st_ulaw2linear16 a # samples (ulaw2lin u)"
    using st_ulaw2linear16_range [of a] by (intro getsample_putsample) simp_all
  with Cons show ?case by (simp add: ulaw2lin_def)
qed

lemma length_ulaw2lin: "length (ulaw2lin u) = 2 * length u"
  by (induction u) (simp_all add: ulaw2lin_def putsample_def)

text \<open>
  C6 as stated fails: a buffer of one byte has a positive length and cannot be encoded,
  so it has no round trip.
\<close>

theorem odd_buffer_not_encoded: "0 < length [0 :: byte] \<and> pcm16_to_ulaw [0] = Inl AudioopError"
  by (simp add: pcm16_to_ulaw_def lin2ulaw_def)

text \<open>
  C6, as amended: for every buffer of even length, encoding succeeds, decoding the
  result gives a buffer of the same length, and each of its samples differs from the
  original sample by less than the quantization step of the segment the sample was
  encoded in, which is at most 1024.
\<close>

theorem ulaw_round_trip:
  assumes "even (length b)"
  shows "\<exists>u. pcm16_to_ulaw b = Inr u
      \<and> length (ulaw_to_pcm16 u sample_rate) = length b
      \<and> (\<forall>i < length b div 2.
            \<bar>samples (ulaw_to_pcm16 u sample_rate) ! i - samples b ! i\<bar> < ulaw_step (u ! i)
            \<and> ulaw_step (u ! i) \<le> 1024)"
proof -
  let ?u = "map (\<lambda>val. st_14linear2ulaw (drop_bit 2 val)) (samples b)"
  from assms have enc: "pcm16_to_ulaw b = Inr ?u"
    by (simp add: pcm16_to_ulaw_def lin2ulaw_def even_iff_mod_2_eq_zero)
  have len: "length (ulaw_to_pcm16 ?u sample_rate) = length b"
    using assms by (simp add: ulaw_to_pcm16_def length_ulaw2lin length_samples)
  have "\<bar>samples (ulaw_to_pcm16 ?u sample_rate) ! i - samples b ! i\<bar> < ulaw_step (?u ! i)
      \<and> ulaw_step (?u ! i) \<le> 1024" if "i < length b div 2" for i
  proof -
    from that have i: "i < length (samples b)" by (simp add: length_samples)
    then have "samples b ! i \<in> set (samples b)" by simp
    then have r: "- 32768 \<le> samples b ! i" "samples b ! i \<le> 32767"
      using samples_range by blast+
    from i have "samples (ulaw_to_pcm16 ?u sample_rate) ! i =
        st_ulaw2linear16 (st_14linear2ulaw (drop_bit 2 (samples b ! i)))"
      by (simp add: ulaw_to_pcm16_def samples_ulaw2lin)
    moreover from i have "?u ! i = st_14linear2ulaw (drop_bit 2 (samples b ! i))"
      by simp
    ultimately show ?thesis
      using sample_round_trip [OF r] by simp
  qed
  with enc len show ?thesis by blast
qed

theorem ulaw_round_trip_witness:
  "even (length [0x10, 0x27 :: byte])
   \<and> (\<exists>u. pcm16_to_ulaw [0x10, 0x27] = Inr u
      \<and> length (ulaw_to_pcm16 u 8000) = length [0x10, 0x27 :: byte]
      \<and> (\<forall>i < length [0x10, 0x27 :: byte] div 2.
            \<bar>samples (ulaw_to_pcm16 u 8000) ! i - samples [0x10, 0x27] ! i\<bar> < ulaw_step (u ! i)
            \<and> ulaw_step (u ! i) \<le> 1024))"
proof -
  have h: "even (length [0x10, 0x27 :: byte])" by simp
  from h ulaw_round_trip [OF h, of 8000] show ?thesis by (rule conjI)
qed


section \<open>The model session\<close>

lemma then_do_fst:
  assumes "P (fst r)" and "\<And>s. P s \<Longrightarrow> P (fst (f s))"
  shows "P (fst (then_do r f))"
proof (cases r)
  case (fields s tr e)
  with assms(1) have "P s" by simp
  then have "P (fst (f s))" by (rule assms(2))
  with fields \<open>P s\<close> show ?thesis
    by (cases e; cases "f s") (simp_all add: then_do_def)
qed

lemma await_fst [simp]: "fst (await ok e s) = s"
  by (simp add: await_def)

lemma vad_fst [simp]: "fst (vad ok name s) = s"
  by (simp add: vad_def)

lemma inline_part_fst [simp]: "fst (inline_part ok part s) = s"
  by (simp add: inline_part_def split: sum.splits bool.splits)

lemma text_part_fst [simp]: "fst (text_part ok part s) = s"
  by (simp add: text_part_def split: sum.splits)

lemma handle_parts_fst [simp]: "fst (handle_parts ok parts s) = s"
proof (induction parts)
  case Nil
  show ?case by simp
next
  case (Cons part parts)
  have "fst (then_do (then_do (inline_part ok part s) (text_part ok part))
      (handle_parts ok parts)) = s"
    by (intro then_do_fst [where P = "\<lambda>t. t = s"]) (simp_all add: Cons.IH)
  then show ?case by simp
qed

lemma model_turn_parts_fst [simp]: "fst (model_turn_parts ok model_turn s) = s"
  by (simp add: model_turn_parts_def split: sum.splits)

lemma bot_started_fst:
  "fst (bot_started ok s) =
     (if bot_speaking s then s else s\<lparr>bot_speaking := True, user_speaking := False\<rparr>)"
  by (simp add: bot_started_def)

lemma bot_started_again_fst:
  "fst (bot_started_again s) = (if bot_speaking s then s else s\<lparr>bot_speaking := True\<rparr>)"
  by (simp add: bot_started_again_def)

lemma model_turn_fst:
  "fst (then_do (then_do (bot_started ok s) bot_started_again) (model_turn_parts ok mt)) =
     (if bot_speaking s then s else s\<lparr>bot_speaking := True, user_speaking := False\<rparr>)"
  by (intro then_do_fst
      [where P = "\<lambda>t. t = (if bot_speaking s then s
         else s\<lparr>bot_speaking := True, user_speaking := False\<rparr>)"])
    (auto simp: bot_started_fst bot_started_again_fst)

lemma on_model_turn_exclusive: "exclusive s \<Longrightarrow> exclusive (fst (on_model_turn ok sc s))"
  by (auto simp: on_model_turn_def model_turn_fst exclusive_def split: sum.splits bool.splits)

lemma on_turn_complete_exclusive: "exclusive s \<Longrightarrow> exclusive (fst (on_turn_complete ok sc s))"
  by (auto simp: on_turn_complete_def exclusive_def split: sum.splits bool.splits)

lemma on_interrupted_fst:
  "fst (on_interrupted ok sc s) =
     (if flag_set ''interrupted'' sc = Inr True
      then s\<lparr>bot_speaking := False, user_speaking := True\<rparr> else s)"
proof (cases "flag_set ''interrupted'' sc = Inr True")
  case True
  have "fst (then_do (vad ok ''interrupted'' (s\<lparr>bot_speaking := False, user_speaking := True\<rparr>))
      (vad ok ''turn_complete'')) = s\<lparr>bot_speaking := False, user_speaking := True\<rparr>"
    by (intro then_do_fst
        [where P = "\<lambda>t. t = s\<lparr>bot_speaking := False, user_speaking := True\<rparr>"]) simp_all
  with True show ?thesis by (simp add: on_interrupted_def)
next
  case False
  then show ?thesis
    by (auto simp: on_interrupted_def split: sum.splits bool.splits)
qed

lemma on_interrupted_exclusive: "exclusive s \<Longrightarrow> exclusive (fst (on_interrupted ok sc s))"
  by (simp add: on_interrupted_fst exclusive_def)

lemma on_interrupted_again_exclusive:
  "exclusive s \<Longrightarrow> exclusive (fst (on_interrupted_again ok sc s))"
  by (auto simp: on_interrupted_again_def exclusive_def split: sum.splits bool.splits)

lemma on_server_content_exclusive:
  "exclusive s \<Longrightarrow> exclusive (fst (on_server_content ok sc s))"
  unfolding on_server_content_def
  by (intro then_do_fst [where P = exclusive] on_model_turn_exclusive
      on_turn_complete_exclusive on_interrupted_exclusive on_interrupted_again_exclusive)

lemma dispatch_exclusive: "exclusive s \<Longrightarrow> exclusive (fst (dispatch ok data s))"
  by (auto simp: dispatch_def on_server_content_exclusive split: sum.splits bool.splits)

lemma receive_event_exclusive: "exclusive s \<Longrightarrow> exclusive (fst (receive_event ok msg s))"
proof (cases msg)
  case None
  assume "exclusive s"
  with None show ?thesis by (simp add: receive_event_def)
next
  case (Some data)
  assume "exclusive s"
  then have "exclusive (fst (dispatch ok data s))" by (rule dispatch_exclusive)
  with Some show ?thesis
    by (cases "dispatch ok data s") (simp add: receive_event_def)
qed

lemma connect_exclusive: "exclusive s \<Longrightarrow> exclusive (fst (connect ok s))"
  by (simp add: connect_def exclusive_def)

lemma close_exclusive: "exclusive s \<Longrightarrow> exclusive (fst (close ok s))"
  by (simp add: close_def exclusive_def)

lemma send_audio_chunk_exclusive:
  "exclusive s \<Longrightarrow> \<not> bot_speaking s \<Longrightarrow> exclusive (fst (send_audio_chunk ok pcm_data s))"
  by (simp add: send_audio_chunk_def exclusive_def)

lemma quiet_run_exclusive:
  "exclusive s \<Longrightarrow> quiet_while_bot steps s \<Longrightarrow> exclusive (run steps s)"
proof (induction steps arbitrary: s)
  case Nil
  then show ?case by simp
next
  case (Cons st steps)
  obtain ok a where st: "st = (ok, a)" by (cases st)
  have "exclusive (step ok a s) \<and> quiet_while_bot steps (step ok a s)"
  proof (cases a)
    case (Register x y z)
    with Cons.prems st show ?thesis by (simp add: exclusive_def)
  next
    case Connect
    with Cons.prems st show ?thesis by (simp add: connect_exclusive)
  next
    case (SendAudioChunk pcm_data)
    with Cons.prems st show ?thesis by (simp add: send_audio_chunk_exclusive)
  next
    case (Receive msg)
    with Cons.prems st show ?thesis by (simp add: receive_event_exclusive)
  next
    case Close
    with Cons.prems st show ?thesis by (simp add: close_exclusive)
  qed
  then show ?case using Cons.IH [of "step ok a s"] st by simp
qed

text \<open>
  C1, as amended: in every state the client reaches from its initial state by
  registering callbacks, \<open>connect\<close>, handling received messages, \<open>close\<close>, and
  \<open>send_audio_chunk\<close> called only while \<open>bot_speaking\<close> is not set, at most one of
  \<open>user_speaking\<close> and \<open>bot_speaking\<close> is set.
\<close>

theorem turn_flags_exclusive:
  "quiet_while_bot steps gemini_init \<Longrightarrow> exclusive (run steps gemini_init)"
  by (rule quiet_run_exclusive) (simp add: exclusive_def gemini_init_def)

theorem turn_flags_exclusive_witness:
  "quiet_while_bot
     [(always_ok, Connect), (always_ok, SendAudioChunk [0, 0]),
      (always_ok, Receive (Some (JObj [(''serverContent'', JObj [(''modelTurn'',
         JObj [(''parts'', JArr [JObj [(''text'', JStr ''hi'')]])])])])))]
     gemini_init
   \<and> exclusive (run
     [(always_ok, Connect), (always_ok, SendAudioChunk [0, 0]),
      (always_ok, Receive (Some (JObj [(''serverContent'', JObj [(''modelTurn'',
         JObj [(''parts'', JArr [JObj [(''text'', JStr ''hi'')]])])])])))]
     gemini_init)"
proof -
  have q: "quiet_while_bot
     [(always_ok, Connect), (always_ok, SendAudioChunk [0, 0]),
      (always_ok, Receive (Some (JObj [(''serverContent'', JObj [(''modelTurn'',
         JObj [(''parts'', JArr [JObj [(''text'', JStr ''hi'')]])])])])))]
     gemini_init"
    by (simp add: gemini_init_def connect_def always_ok_def)
  from q turn_flags_exclusive [OF q] show ?thesis by simp
qed

lemmas dispatch_defs = receive_event_def dispatch_def on_server_content_def on_model_turn_def
  on_turn_complete_def on_interrupted_def on_interrupted_again_def flag_set_def
  model_turn_parts_def inline_part_def text_part_def bot_started_def bot_started_again_def
  vad_def await_def then_do_def always_ok_def

text \<open>
  C1 as stated fails: after \<open>connect\<close>, a message with a model turn and one audio chunk
  sent, both flags are set.
\<close>

theorem turn_flags_both_set:
  "user_speaking (run
     [(always_ok, Connect),
      (always_ok, Receive (Some (JObj [(''serverContent'', JObj [(''modelTurn'',
         JObj [(''parts'', JArr [JObj [(''text'', JStr ''hi'')]])])])]))),
      (always_ok, SendAudioChunk [0, 0])]
     gemini_init)
   \<and> bot_speaking (run
     [(always_ok, Connect),
      (always_ok, Receive (Some (JObj [(''serverContent'', JObj [(''modelTurn'',
         JObj [(''parts'', JArr [JObj [(''text'', JStr ''hi'')]])])])]))),
      (always_ok, SendAudioChunk [0, 0])]
     gemini_init)"
  by (simp add: gemini_init_def connect_def send_audio_chunk_def dispatch_defs)

text \<open>
  C2 as stated fails: a message with \<open>interrupted: true\<close> whose model turn holds a part
  that is not an object, received while \<open>bot_speaking\<close> is set, raises in the loop over
  the parts; the flags stay as they were and no signal is sent.
\<close>

theorem interrupted_lost_after_bad_part:
  "receive_event always_ok
     (Some (JObj [(''serverContent'', JObj [(''modelTurn'', JObj [(''parts'', JArr [JNull])]),
        (''interrupted'', JBool True)])]))
     (gemini_init\<lparr>ws := True, gconnected := True, vad_callback := True, bot_speaking := True\<rparr>)
   = (gemini_init\<lparr>ws := True, gconnected := True, vad_callback := True, bot_speaking := True\<rparr>,
      [])"
  by (simp add: gemini_init_def dispatch_defs)

lemma flag_set_obj:
  "flag_set k sc = Inr True \<Longrightarrow> \<exists>kv. sc = JObj kv"
  by (cases sc) (auto simp: flag_set_def split: sum.splits bool.splits if_splits)

lemma flag_set_total:
  "flag_set k sc = Inr True \<Longrightarrow> \<exists>b. flag_set k' sc = Inr b"
  using flag_set_obj [of k sc]
  by (auto simp: flag_set_def split: sum.splits bool.splits option.splits)

lemma on_model_turn_bot_speaking_fst:
  "bot_speaking s \<Longrightarrow> fst (on_model_turn ok sc s) = s"
  by (auto simp: on_model_turn_def model_turn_fst split: sum.splits bool.splits)

lemma then_do_None:
  "snd (snd (then_do r f)) = None \<Longrightarrow> snd (snd r) = None \<and> snd (snd (f (fst r))) = None"
  by (cases r; cases "snd (snd r)"; cases "f (fst r)") (auto simp: then_do_def)

lemma vad_None:
  "vad_callback s \<Longrightarrow> snd (snd (vad ok name s)) = None \<Longrightarrow> ok (VadCallback name)"
  by (simp add: vad_def await_def split: if_splits)

lemma on_turn_complete_fst:
  "fst (on_turn_complete ok sc s) = s \<or> fst (on_turn_complete ok sc s) = s\<lparr>bot_speaking := False\<rparr>"
  by (auto simp: on_turn_complete_def split: sum.splits bool.splits)

text \<open>
  C2, as amended: when a message whose \<open>serverContent\<close> has a true \<open>interrupted\<close> is
  received while \<open>bot_speaking\<close> is set and a VAD callback is registered, and no
  exception cuts the dispatch of the message short (none from a model turn in the same
  message, none from a callback), then \<open>user_speaking\<close> is set, \<open>bot_speaking\<close> is
  cleared, and the dispatch ends by calling the VAD callback with \<open>interrupted\<close>,
  \<open>turn_complete\<close> and \<open>interrupted\<close> again.
\<close>

theorem interrupted_signals:
  assumes sc: "py_getitem data ''serverContent'' = Inr sc"
    and intr: "flag_set ''interrupted'' sc = Inr True"
    and bot: "bot_speaking s"
    and cb: "vad_callback s"
    and quiet: "snd (snd (dispatch ok data s)) = None"
  shows "\<exists>tr. receive_event ok (Some data) s =
     (s\<lparr>bot_speaking := False, user_speaking := True\<rparr>,
      tr @ [VadCallback ''interrupted'', VadCallback ''turn_complete'', VadCallback ''interrupted''])"
proof -
  let ?s' = "s\<lparr>bot_speaking := False, user_speaking := True\<rparr>"
  let ?A = "on_model_turn ok sc s"
  let ?B = "then_do ?A (on_turn_complete ok sc)"
  let ?C = "then_do ?B (on_interrupted ok sc)"
  from sc have disp: "dispatch ok data s = on_server_content ok sc s"
    by (cases data) (auto simp: dispatch_def split: option.splits)
  with quiet have "snd (snd (then_do ?C (on_interrupted_again ok sc))) = None"
    by (simp add: on_server_content_def)
  then have nC: "snd (snd ?C) = None"
    using then_do_None by blast
  then have nB: "snd (snd ?B) = None"
      and nI: "snd (snd (on_interrupted ok sc (fst ?B))) = None"
    using then_do_None [of ?B "on_interrupted ok sc"] by simp_all
  from nB have nA: "snd (snd ?A) = None"
    using then_do_None [of ?A "on_turn_complete ok sc"] by simp
  obtain tr1 where m: "?A = (s, tr1, None)"
    using nA on_model_turn_bot_speaking_fst [OF bot, of ok sc]
    by (cases ?A) auto
  have "fst ?B = fst (on_turn_complete ok sc s)"
    by (cases "on_turn_complete ok sc s") (simp add: m then_do_def)
  then have cbB: "vad_callback (fst ?B)"
    using on_turn_complete_fst [of ok sc s] cb by auto
  let ?t = "(fst ?B)\<lparr>bot_speaking := False, user_speaking := True\<rparr>"
  from nI intr have nV: "snd (snd (then_do (vad ok ''interrupted'' ?t) (vad ok ''turn_complete''))) = None"
    by (simp add: on_interrupted_def)
  from cbB have cbt: "vad_callback ?t" by simp
  have okI: "ok (VadCallback ''interrupted'')"
    using then_do_None [OF nV] vad_None [OF cbt] by blast
  have "snd (snd (vad ok ''turn_complete'' (fst (vad ok ''interrupted'' ?t)))) = None"
    using then_do_None [OF nV] by blast
  then have okT: "ok (VadCallback ''turn_complete'')"
    using vad_None [of ?t ok "''turn_complete''"] cbt by simp
  obtain b where tcf: "flag_set ''turnComplete'' sc = Inr b"
    using flag_set_total [OF intr] by blast
  have "on_server_content ok sc s =
      (?s', (tr1 @ (if b then [VadCallback ''turn_complete''] else []))
         @ [VadCallback ''interrupted'', VadCallback ''turn_complete'', VadCallback ''interrupted''],
       None)"
    using m tcf intr cb okI okT
    by (cases b)
      (simp_all add: on_server_content_def then_do_def on_turn_complete_def on_interrupted_def
        on_interrupted_again_def vad_def await_def)
  with disp show ?thesis
    by (simp add: receive_event_def)
qed

theorem interrupted_signals_witness:
  "py_getitem (JObj [(''serverContent'', JObj [(''interrupted'', JBool True)])]) ''serverContent''
     = Inr (JObj [(''interrupted'', JBool True)])
   \<and> flag_set ''interrupted'' (JObj [(''interrupted'', JBool True)]) = Inr True
   \<and> bot_speaking (gemini_init\<lparr>vad_callback := True, bot_speaking := True\<rparr>)
   \<and> vad_callback (gemini_init\<lparr>vad_callback := True, bot_speaking := True\<rparr>)
   \<and> snd (snd (dispatch always_ok (JObj [(''serverContent'', JObj [(''interrupted'', JBool True)])])
        (gemini_init\<lparr>vad_callback := True, bot_speaking := True\<rparr>))) = None
   \<and> (\<exists>tr. receive_event always_ok
        (Some (JObj [(''serverContent'', JObj [(''interrupted'', JBool True)])]))
        (gemini_init\<lparr>vad_callback := True, bot_speaking := True\<rparr>) =
      (gemini_init\<lparr>vad_callback := True, bot_speaking := False, user_speaking := True\<rparr>,
       tr @ [VadCallback ''interrupted'', VadCallback ''turn_complete'',
             VadCallback ''interrupted'']))"
proof -
  have h: "py_getitem (JObj [(''serverContent'', JObj [(''interrupted'', JBool True)])])
       ''serverContent'' = Inr (JObj [(''interrupted'', JBool True)])"
    "flag_set ''interrupted'' (JObj [(''interrupted'', JBool True)]) = Inr True"
    "bot_speaking (gemini_init\<lparr>vad_callback := True, bot_speaking := True\<rparr>)"
    "vad_callback (gemini_init\<lparr>vad_callback := True, bot_speaking := True\<rparr>)"
    "snd (snd (dispatch always_ok (JObj [(''serverContent'', JObj [(''interrupted'', JBool True)])])
        (gemini_init\<lparr>vad_callback := True, bot_speaking := True\<rparr>))) = None"
    by (simp_all add: gemini_init_def dispatch_defs)
  from h interrupted_signals [OF h] show ?thesis
    by simp
qed

text \<open>
  C4 as stated fails: a model turn that carries only text, received while \<open>bot_speaking\<close>
  is not set, sets the flag and sends the \<open>user_stopped\<close> signal.
\<close>

theorem text_only_turn_starts_bot:
  "receive_event always_ok
     (Some (JObj [(''serverContent'', JObj [(''modelTurn'',
        JObj [(''parts'', JArr [JObj [(''text'', JStr ''hi'')]])])])]))
     (gemini_init\<lparr>ws := True, gconnected := True, vad_callback := True\<rparr>)
   = (gemini_init\<lparr>ws := True, gconnected := True, vad_callback := True, bot_speaking := True\<rparr>,
      [VadCallback ''user_stopped''])"
  by (simp add: gemini_init_def dispatch_defs)

lemma then_do_trace_split:
  "\<exists>tr. fst (snd (then_do r f)) = fst (snd r) @ tr
     \<and> (\<forall>e. (\<forall>s. e \<notin> set (fst (snd (f s)))) \<longrightarrow> e \<notin> set tr)"
proof (cases r)
  case (fields s tr0 x)
  show ?thesis
  proof (cases x)
    case None
    with fields have "fst (snd (then_do r f)) = fst (snd r) @ fst (snd (f s))"
      by (cases "f s") (simp add: then_do_def)
    then show ?thesis by blast
  next
    case (Some e)
    with fields have "fst (snd (then_do r f)) = fst (snd r) @ []"
      by (simp add: then_do_def)
    then show ?thesis by (intro exI [of _ "[]"]) simp
  qed
qed

lemma then_do_trace_set:
  assumes "e \<notin> set (fst (snd r))" and "\<And>s. e \<notin> set (fst (snd (f s)))"
  shows "e \<notin> set (fst (snd (then_do r f)))"
  using assms(1) assms(2) [of "fst r"]
  by (cases r; cases "snd (snd r)"; cases "f (fst r)") (auto simp: then_do_def)

lemma vad_trace:
  "name \<noteq> name' \<Longrightarrow> VadCallback name' \<notin> set (fst (snd (vad ok name s)))"
  by (simp add: vad_def await_def)

lemma inline_part_trace: "VadCallback name \<notin> set (fst (snd (inline_part ok part s)))"
  by (auto simp: inline_part_def await_def split: sum.splits bool.splits)

lemma text_part_trace: "VadCallback name \<notin> set (fst (snd (text_part ok part s)))"
  by (auto simp: text_part_def await_def split: sum.splits)

lemma handle_parts_trace: "VadCallback name \<notin> set (fst (snd (handle_parts ok parts s)))"
proof (induction parts arbitrary: s)
  case Nil
  show ?case by simp
next
  case (Cons part parts)
  show ?case
    unfolding handle_parts.simps
    by (intro then_do_trace_set inline_part_trace text_part_trace Cons.IH)
qed

lemma model_turn_parts_trace:
  "VadCallback name \<notin> set (fst (snd (model_turn_parts ok mt s)))"
  by (auto simp: model_turn_parts_def handle_parts_trace split: sum.splits)

lemma on_model_turn_quiet:
  "bot_speaking s \<Longrightarrow> VadCallback ''user_stopped'' \<notin> set (fst (snd (on_model_turn ok sc s)))"
proof -
  assume bot: "bot_speaking s"
  have "VadCallback ''user_stopped'' \<notin> set (fst (snd
      (then_do (then_do (bot_started ok s) bot_started_again) (model_turn_parts ok mt))))" for mt
    using bot
    by (intro then_do_trace_set model_turn_parts_trace)
      (simp_all add: bot_started_def bot_started_again_def)
  then show ?thesis
    by (auto simp: on_model_turn_def split: sum.splits bool.splits)
qed

lemma on_turn_complete_trace:
  "VadCallback ''user_stopped'' \<notin> set (fst (snd (on_turn_complete ok sc s)))"
  by (auto simp: on_turn_complete_def vad_trace split: sum.splits bool.splits)

lemma on_interrupted_trace:
  "VadCallback ''user_stopped'' \<notin> set (fst (snd (on_interrupted ok sc s)))"
proof -
  have "VadCallback ''user_stopped'' \<notin> set (fst (snd
      (then_do (vad ok ''interrupted'' t) (vad ok ''turn_complete''))))" for t
    by (intro then_do_trace_set vad_trace) simp_all
  then show ?thesis
    by (auto simp: on_interrupted_def split: sum.splits bool.splits)
qed

lemma on_interrupted_again_trace:
  "VadCallback ''user_stopped'' \<notin> set (fst (snd (on_interrupted_again ok sc s)))"
  by (auto simp: on_interrupted_again_def vad_trace split: sum.splits bool.splits)

lemma on_server_content_quiet:
  "bot_speaking s \<Longrightarrow>
     VadCallback ''user_stopped'' \<notin> set (fst (snd (on_server_content ok sc s)))"
  unfolding on_server_content_def
  by (intro then_do_trace_set on_model_turn_quiet on_turn_complete_trace on_interrupted_trace
      on_interrupted_again_trace)

lemma on_server_content_rest:
  "\<exists>tr. fst (snd (on_server_content ok sc s)) = fst (snd (on_model_turn ok sc s)) @ tr
     \<and> VadCallback ''user_stopped'' \<notin> set tr"
proof -
  obtain t1 where t1: "fst (snd (then_do (on_model_turn ok sc s) (on_turn_complete ok sc))) =
      fst (snd (on_model_turn ok sc s)) @ t1" "VadCallback ''user_stopped'' \<notin> set t1"
    using then_do_trace_split [of "on_model_turn ok sc s" "on_turn_complete ok sc"]
      on_turn_complete_trace by blast
  obtain t2 where t2: "fst (snd (then_do (then_do (on_model_turn ok sc s)
      (on_turn_complete ok sc)) (on_interrupted ok sc))) =
      fst (snd (then_do (on_model_turn ok sc s) (on_turn_complete ok sc))) @ t2"
      "VadCallback ''user_stopped'' \<notin> set t2"
    using then_do_trace_split [of "then_do (on_model_turn ok sc s) (on_turn_complete ok sc)"
        "on_interrupted ok sc"] on_interrupted_trace by blast
  obtain t3 where t3: "fst (snd (on_server_content ok sc s)) =
      fst (snd (then_do (then_do (on_model_turn ok sc s)
      (on_turn_complete ok sc)) (on_interrupted ok sc))) @ t3"
      "VadCallback ''user_stopped'' \<notin> set t3"
    unfolding on_server_content_def
    using then_do_trace_split [of "then_do (then_do (on_model_turn ok sc s)
        (on_turn_complete ok sc)) (on_interrupted ok sc)" "on_interrupted_again ok sc"]
      on_interrupted_again_trace by blast
  from t1 t2 t3 have "fst (snd (on_server_content ok sc s)) =
      fst (snd (on_model_turn ok sc s)) @ (t1 @ t2 @ t3)
      \<and> VadCallback ''user_stopped'' \<notin> set (t1 @ t2 @ t3)"
    by simp
  then show ?thesis by blast
qed

lemma on_model_turn_first:
  assumes "py_getitem sc ''modelTurn'' = Inr mt" and "\<not> bot_speaking s"
  shows "fst (on_model_turn ok sc s) = s\<lparr>bot_speaking := True, user_speaking := False\<rparr>"
    and "\<exists>tr. fst (snd (on_model_turn ok sc s)) =
        (if vad_callback s then [VadCallback ''user_stopped''] else []) @ tr
      \<and> VadCallback ''user_stopped'' \<notin> set tr"
proof -
  from assms(1) have omt: "on_model_turn ok sc s =
      then_do (then_do (bot_started ok s) bot_started_again) (model_turn_parts ok mt)"
    by (cases sc) (auto simp: on_model_turn_def split: option.splits)
  with assms(2) show "fst (on_model_turn ok sc s) =
      s\<lparr>bot_speaking := True, user_speaking := False\<rparr>"
    by (simp add: model_turn_fst)
  from assms(2) have bs: "fst (snd (bot_started ok s)) =
      (if vad_callback s then [VadCallback ''user_stopped''] else [])"
    by (simp add: bot_started_def vad_def await_def)
  obtain t1 where t1: "fst (snd (then_do (bot_started ok s) bot_started_again)) =
      fst (snd (bot_started ok s)) @ t1" "VadCallback ''user_stopped'' \<notin> set t1"
    using then_do_trace_split [of "bot_started ok s" bot_started_again]
    by (auto simp: bot_started_again_def)
  obtain t2 where t2: "fst (snd (on_model_turn ok sc s)) =
      fst (snd (then_do (bot_started ok s) bot_started_again)) @ t2"
      "VadCallback ''user_stopped'' \<notin> set t2"
    unfolding omt
    using then_do_trace_split [of "then_do (bot_started ok s) bot_started_again"
        "model_turn_parts ok mt"] model_turn_parts_trace by blast
  from bs t1 t2 have "fst (snd (on_model_turn ok sc s)) =
      (if vad_callback s then [VadCallback ''user_stopped''] else []) @ (t1 @ t2)
      \<and> VadCallback ''user_stopped'' \<notin> set (t1 @ t2)"
    by simp
  then show "\<exists>tr. fst (snd (on_model_turn ok sc s)) =
        (if vad_callback s then [VadCallback ''user_stopped''] else []) @ tr
      \<and> VadCallback ''user_stopped'' \<notin> set tr"
    by blast
qed

text \<open>
  C4, as amended: for a message whose \<open>serverContent\<close> has a \<open>modelTurn\<close>, with or
  without inline audio: received while \<open>bot_speaking\<close> is not set, the handling of the
  model turn sets \<open>bot_speaking\<close> and clears \<open>user_speaking\<close> (before anything else in
  the message is looked at) and, if a VAD callback is registered, the dispatch calls it
  with \<open>user_stopped\<close> first and only once; received while \<open>bot_speaking\<close> is set, the
  handling of the model turn leaves the state as it is and the dispatch does not send
  \<open>user_stopped\<close>.
\<close>

theorem model_turn_starts_bot_turn:
  assumes sc: "py_getitem data ''serverContent'' = Inr sc"
    and mt: "py_getitem sc ''modelTurn'' = Inr mt"
  shows "(\<not> bot_speaking s \<longrightarrow>
        fst (on_model_turn ok sc s) = s\<lparr>bot_speaking := True, user_speaking := False\<rparr>
        \<and> (\<exists>tr. snd (receive_event ok (Some data) s) =
              (if vad_callback s then [VadCallback ''user_stopped''] else []) @ tr
            \<and> VadCallback ''user_stopped'' \<notin> set tr))
    \<and> (bot_speaking s \<longrightarrow>
        fst (on_model_turn ok sc s) = s
        \<and> VadCallback ''user_stopped'' \<notin> set (snd (receive_event ok (Some data) s)))"
proof -
  from sc have disp: "dispatch ok data s = on_server_content ok sc s"
    by (cases data) (auto simp: dispatch_def split: option.splits)
  have tr: "snd (receive_event ok (Some data) s) = fst (snd (on_server_content ok sc s))"
    by (cases "on_server_content ok sc s") (simp add: receive_event_def disp)
  show ?thesis
  proof (intro conjI impI)
    assume nb: "\<not> bot_speaking s"
    show "fst (on_model_turn ok sc s) = s\<lparr>bot_speaking := True, user_speaking := False\<rparr>"
      by (rule on_model_turn_first(1) [OF mt nb])
    obtain t1 where t1: "fst (snd (on_model_turn ok sc s)) =
        (if vad_callback s then [VadCallback ''user_stopped''] else []) @ t1"
        "VadCallback ''user_stopped'' \<notin> set t1"
      using on_model_turn_first(2) [OF mt nb] by blast
    obtain t2 where t2: "fst (snd (on_server_content ok sc s)) =
        fst (snd (on_model_turn ok sc s)) @ t2" "VadCallback ''user_stopped'' \<notin> set t2"
      using on_server_content_rest by blast
    from t1 t2 have "snd (receive_event ok (Some data) s) =
        (if vad_callback s then [VadCallback ''user_stopped''] else []) @ (t1 @ t2)
        \<and> VadCallback ''user_stopped'' \<notin> set (t1 @ t2)"
      by (simp add: tr)
    then show "\<exists>tr. snd (receive_event ok (Some data) s) =
          (if vad_callback s then [VadCallback ''user_stopped''] else []) @ tr
        \<and> VadCallback ''user_stopped'' \<notin> set tr"
      by blast
  next
    assume b: "bot_speaking s"
    show "fst (on_model_turn ok sc s) = s"
      by (rule on_model_turn_bot_speaking_fst [OF b])
    show "VadCallback ''user_stopped'' \<notin> set (snd (receive_event ok (Some data) s))"
      using on_server_content_quiet [OF b] by (simp add: tr)
  qed
qed

theorem model_turn_starts_bot_turn_witness:
  "py_getitem (JObj [(''serverContent'', JObj [(''modelTurn'', JObj [])])]) ''serverContent''
     = Inr (JObj [(''modelTurn'', JObj [])])
   \<and> py_getitem (JObj [(''modelTurn'', JObj [])]) ''modelTurn'' = Inr (JObj [])
   \<and> \<not> bot_speaking (gemini_init\<lparr>vad_callback := True\<rparr>)
   \<and> vad_callback (gemini_init\<lparr>vad_callback := True\<rparr>)
   \<and> fst (on_model_turn always_ok (JObj [(''modelTurn'', JObj [])])
        (gemini_init\<lparr>vad_callback := True\<rparr>)) =
      gemini_init\<lparr>vad_callback := True, bot_speaking := True\<rparr>
   \<and> (\<exists>tr. snd (receive_event always_ok
        (Some (JObj [(''serverContent'', JObj [(''modelTurn'', JObj [])])]))
        (gemini_init\<lparr>vad_callback := True\<rparr>)) = [VadCallback ''user_stopped''] @ tr
      \<and> VadCallback ''user_stopped'' \<notin> set tr)
   \<and> bot_speaking (gemini_init\<lparr>bot_speaking := True\<rparr>)
   \<and> VadCallback ''user_stopped'' \<notin> set (snd (receive_event always_ok
        (Some (JObj [(''serverContent'', JObj [(''modelTurn'', JObj [])])]))
        (gemini_init\<lparr>bot_speaking := True\<rparr>)))"
proof -
  have h: "py_getitem (JObj [(''serverContent'', JObj [(''modelTurn'', JObj [])])])
       ''serverContent'' = Inr (JObj [(''modelTurn'', JObj [])])"
    "py_getitem (JObj [(''modelTurn'', JObj [])]) ''modelTurn'' = Inr (JObj [])"
    by simp_all
  from h model_turn_starts_bot_turn [OF h, of "gemini_init\<lparr>vad_callback := True\<rparr>" always_ok]
    model_turn_starts_bot_turn [OF h, of "gemini_init\<lparr>bot_speaking := True\<rparr>" always_ok]
  show ?thesis
    by (simp add: gemini_init_def)
qed




end
